theory Spec2Isabelle
  imports Complex_Main "HOL-Library.Word" "HOL-Library.Char_ord" "HOL-Library.List_Lexorder"
    "HOL-Library.Code_Target_Numeral"
begin

section \<open>Value model\<close>

text \<open>
  The C++ \<open>double\<close> payload, an IEEE 754 binary64 number: the sign bit and the magnitude,
  a rational that binary64 represents (\<open>stod\<close> below rounds to one). Infinities and NaN
  have no literal the scanner accepts and are left out.
\<close>

datatype double = Double (negative: bool) (magnitude: rat)

text \<open>
  \<open>using JsonValue = variant<JsonObject, JsonArray, string, int, double, bool, nullptr_t>\<close>.
  \<open>JsonObject\<close> derives from \<open>std::map<string, JsonValue>\<close>: its entries are held, and
  iterated from \<open>begin()\<close> to \<open>end()\<close>, in ascending order of the keys under
  \<open>std::less<string>\<close>, each key once. The model is the list of entries in iteration
  order. \<open>JsonArray\<close> derives from \<open>std::vector<JsonValue>\<close>. \<open>int\<close> is 32 bits wide.
\<close>

datatype JsonValue =
    JObject "(string \<times> JsonValue) list"
  | JArray "JsonValue list"
  | JString string
  | JInt "32 word"
  | JDouble double
  | JBool bool
  | JNull

type_synonym JsonObject = "(string \<times> JsonValue) list"
type_synonym JsonArray = "JsonValue list"

text \<open>
  \<open>json_object[key] = v\<close> on a \<open>std::map\<close>: the value of an existing key is replaced
  where it stands, a new key is inserted at its place in the key order. \<open>(<)\<close> on
  \<open>string\<close> is the lexicographic order on bytes read as unsigned, which is what
  \<open>std::string::compare\<close> computes.
\<close>

fun map_assign :: "JsonObject \<Rightarrow> string \<Rightarrow> JsonValue \<Rightarrow> JsonObject" where
  "map_assign [] k v = [(k, v)]"
| "map_assign ((k', v') # m) k v =
     (if k = k' then (k', v) # m
      else if k < k' then (k, v) # (k', v') # m
      else (k', v') # map_assign m k v)"

section \<open>Tokens\<close>

datatype TokenType =
    STRING | NUMBER | BOOLEAN | NULL_VALUE | COMMA | COLON
  | LEFT_CURLY | RIGHT_CURLY | LEFT_SQUARE | RIGHT_SQUARE | EOF_TOKEN

text \<open>\<open>variant<monostate, string, int, double, bool>\<close>\<close>

datatype TokenValue =
    Monostate | StringV string | IntV "32 word" | DoubleV double | BoolV bool

datatype Token = Token (token_type: TokenType) (token_value: TokenValue)

section \<open>Errors\<close>

text \<open>
  Every \<open>throw invalid_argument(msg)\<close> of the source is one constructor, named after
  its message; the two \<open>"Unexpected token"\<close> sites of the scanner and the one of the
  parser throw the same exception. \<open>OutOfRange\<close> is the \<open>std::out_of_range\<close> of
  \<open>std::stoi\<close>, \<open>BadVariantAccess\<close> the \<open>std::bad_variant_access\<close> of \<open>std::get\<close>.
  \<open>OutOfBounds\<close> marks a read of \<open>str[i]\<close> or \<open>tokens[i]\<close> outside the container, which
  is undefined behaviour in C++. \<open>OutOfFuel\<close> belongs to the model only.
\<close>

datatype error =
    MinusNotFollowedByNumber  \<comment> \<open>"- must be followed by a number"\<close>
  | UnexpectedToken           \<comment> \<open>"Unexpected token"\<close>
  | UnterminatedString        \<comment> \<open>"Unterminated string"\<close>
  | ExpectedDigitAfterDot     \<comment> \<open>"Expected digit after . (trying to parse float)"\<close>
  | UnterminatedObject        \<comment> \<open>"Unterminated JSON object"\<close>
  | KeyMustBeString           \<comment> \<open>"JSON object fields must begin with a 'key' i.e. string"\<close>
  | ExpectedColon             \<comment> \<open>"Key: values must be colon separated"\<close>
  | UnterminatedArray         \<comment> \<open>"Unterminated JSON array"\<close>
  | MissingComma              \<comment> \<open>"Missing comma unless followed by"\<close>
  | StoiInvalidArgument
  | OutOfRange
  | BadVariantAccess
  | OutOfBounds
  | OutOfFuel

section \<open>Library functions used by the scanner\<close>

text \<open>\<open>isdigit\<close> and \<open>isalpha\<close> in the "C" locale.\<close>

definition isdigit :: "char \<Rightarrow> bool" where
  "isdigit c = (let n = (of_char c :: nat) in 48 \<le> n \<and> n \<le> 57)"

definition isalpha :: "char \<Rightarrow> bool" where
  "isalpha c = (let n = (of_char c :: nat) in (65 \<le> n \<and> n \<le> 90) \<or> (97 \<le> n \<and> n \<le> 122))"

text \<open>\<open>s.substr(pos, n)\<close>, for \<open>pos \<le> s.size()\<close>.\<close>

definition substr :: "string \<Rightarrow> nat \<Rightarrow> nat \<Rightarrow> string" where
  "substr s pos n = take n (drop pos s)"

definition digit_val :: "char \<Rightarrow> nat" where
  "digit_val c = of_char c - 48"

definition digits_value :: "string \<Rightarrow> nat" where
  "digits_value ds = foldl (\<lambda>acc c. 10 * acc + digit_val c) 0 ds"

text \<open>
  \<open>std::stoi\<close> on an optional \<open>-\<close> followed by decimal digits: the value, or
  \<open>std::out_of_range\<close> when it does not fit \<open>int\<close>; \<open>std::invalid_argument\<close> when no
  digit is there. Characters after the digits are ignored.
\<close>

definition stoi :: "string \<Rightarrow> error + 32 word" where
  "stoi s =
     (let neg = (s \<noteq> [] \<and> hd s = CHR ''-'');
          ds = takeWhile isdigit (if neg then tl s else s);
          v = (if neg then - int (digits_value ds) else int (digits_value ds))
      in if ds = [] then Inl StoiInvalidArgument
         else if - (2 ^ 31) \<le> v \<and> v < 2 ^ 31 then Inr (word_of_int v)
         else Inl OutOfRange)"

text \<open>
  \<open>log_floor b n\<close> is the floor of the logarithm of \<open>n\<close> to the base \<open>b\<close>, for \<open>b \<ge> 2\<close>
  and \<open>n \<ge> 1\<close>; \<open>floor_log b m\<close> the same for a positive rational:
  \<open>b ^ e \<le> m < b ^ (e + 1)\<close>.
\<close>

function log_floor :: "int \<Rightarrow> int \<Rightarrow> nat" where
  "log_floor b n = (if b < 2 \<or> n < b then 0 else Suc (log_floor b (n div b)))"
  by pat_completeness auto
termination
proof (relation "measure (\<lambda>(b, n). nat n)")
  show "wf (measure (\<lambda>(b, n). nat n))" by simp
next
  fix b n :: int
  assume "\<not> (b < 2 \<or> n < b)"
  then have "2 \<le> b" "b \<le> n" by auto
  then have "n div b < n" by (simp add: int_div_less_self)
  moreover from \<open>2 \<le> b\<close> \<open>b \<le> n\<close> have "0 < n" by simp
  ultimately show "((b, n div b), (b, n)) \<in> measure (\<lambda>(b, n). nat n)" by simp
qed

declare log_floor.simps [simp del]

definition floor_log :: "int \<Rightarrow> rat \<Rightarrow> int" where
  "floor_log b m =
     (if 1 \<le> m then int (log_floor b \<lfloor>m\<rfloor>)
      else let l = log_floor b \<lfloor>1 / m\<rfloor>
           in if 1 \<le> m * of_int b ^ l then - int l else - int l - 1)"

text \<open>\<open>scale b m e\<close> is \<open>m * b ^ e\<close> for an integer exponent.\<close>

definition scale :: "int \<Rightarrow> rat \<Rightarrow> int \<Rightarrow> rat" where
  "scale b m e = (if 0 \<le> e then m * of_int b ^ nat e else m / of_int b ^ nat (- e))"

text \<open>Rounding to the nearest integer, a tie going to the even one.\<close>

definition round_half_even :: "rat \<Rightarrow> nat" where
  "round_half_even q =
     (let f = \<lfloor>q\<rfloor>; d = q - of_int f
      in nat (if d < 1 / 2 then f
              else if 1 / 2 < d then f + 1
              else if even f then f else f + 1))"

text \<open>
  The conversion of \<open>strtod\<close>, which \<open>std::stod\<close> calls: a magnitude \<open>m \<ge> 0\<close> is rounded
  to the nearest binary64 number, ties to even: to 53 significant bits when
  \<open>m \<ge> 2 ^ - 1022\<close>, to a multiple of \<open>2 ^ - 1074\<close> below that. \<open>std::stod\<close> throws
  \<open>std::out_of_range\<close> when \<open>strtod\<close> reports \<open>ERANGE\<close>: on overflow (the rounded
  magnitude would be \<open>2 ^ 1024\<close> or more) and on underflow (the result is inexact
  and, rounded to 53 bits with no bound on the exponent, still below \<open>2 ^ - 1022\<close>).
\<close>

definition round_binary64 :: "rat \<Rightarrow> error + rat" where
  "round_binary64 m =
     (if m = 0 then Inr 0
      else
        let e = floor_log 2 m
        in if e < - 1022 then
             (let r = round_half_even (scale 2 m 1074);
                  r53 = round_half_even (scale 2 m (52 - e));
                  tiny = (\<not> (e = - 1023 \<and> r53 = 2 ^ 53));
                  inexact = (scale 2 m 1074 \<noteq> of_nat r)
              in if tiny \<and> inexact then Inl OutOfRange
                 else Inr (scale 2 (of_nat r) (- 1074)))
           else
             (let r = round_half_even (scale 2 m (52 - e))
              in if 1023 < e \<or> (e = 1023 \<and> r = 2 ^ 53) then Inl OutOfRange
                 else Inr (scale 2 (of_nat r) (e - 52))))"

text \<open>
  \<open>std::stod\<close> on an optional \<open>-\<close>, decimal digits, and optionally a point and more
  digits (the only texts \<open>addNumber\<close> passes): the sign and the decimal value rounded to
  binary64, or \<open>std::out_of_range\<close>; \<open>std::invalid_argument\<close> when no digit is there.
\<close>

definition stod :: "string \<Rightarrow> error + double" where
  "stod s =
     (let neg = (s \<noteq> [] \<and> hd s = CHR ''-'');
          r = (if neg then tl s else s);
          ip = takeWhile isdigit r;
          r' = drop (length ip) r;
          fp = (if r' \<noteq> [] \<and> hd r' = CHR ''.'' then takeWhile isdigit (tl r') else [])
      in if ip = [] \<and> fp = [] then Inl StoiInvalidArgument
         else (case round_binary64 (of_nat (digits_value ip)
                                    + of_nat (digits_value fp) / 10 ^ length fp) of
                 Inl e \<Rightarrow> Inl e
               | Inr x \<Rightarrow> Inr (Double neg x)))"

section \<open>Scanner\<close>

text \<open>The members of \<open>class Scanner\<close>; the \<open>size_t\<close> members are natural numbers.\<close>

record Scanner =
  str :: string
  start :: nat
  current :: nat
  line :: nat
  tokens :: "Token list"

definition isLast :: "Scanner \<Rightarrow> bool" where
  "isLast s = (current s \<ge> length (str s))"

definition Scanner_getCurrValue :: "Scanner \<Rightarrow> char" where
  "Scanner_getCurrValue s = (if isLast s then CHR '' '' else str s ! current s)"

definition getNextValue :: "Scanner \<Rightarrow> char" where
  "getNextValue s =
     (if current s + 1 \<ge> length (str s) then CHR '' '' else str s ! (current s + 1))"

text \<open>
  \<open>char c = str[current++]\<close>. \<open>std::string::operator[]\<close> at the position \<open>size()\<close> gives
  the character with value 0; beyond that the behaviour is undefined.
\<close>

definition Scanner_advanceCurrent :: "Scanner \<Rightarrow> error + (char \<times> Scanner)" where
  "Scanner_advanceCurrent s =
     (if current s < length (str s)
      then Inr (str s ! current s, s\<lparr>current := current s + 1\<rparr>)
      else if current s = length (str s)
      then Inr (CHR 0x00, s\<lparr>current := current s + 1\<rparr>)
      else Inl OutOfBounds)"

definition push_back :: "Scanner \<Rightarrow> Token \<Rightarrow> Scanner" where
  "push_back s t = s\<lparr>tokens := tokens s @ [t]\<rparr>"

text \<open>\<open>while (getCurrValue() != '"' && !isLast()) current++;\<close>\<close>

function addString_loop :: "Scanner \<Rightarrow> Scanner" where
  "addString_loop s =
     (if Scanner_getCurrValue s \<noteq> CHR ''\"'' \<and> \<not> isLast s
      then addString_loop (s\<lparr>current := current s + 1\<rparr>)
      else s)"
  by pat_completeness auto
termination
  by (relation "measure (\<lambda>s. length (str s) - current s)") (auto simp: isLast_def)

definition addString :: "Scanner \<Rightarrow> error + Scanner" where
  "addString s0 =
     (let s = addString_loop s0
      in if isLast s then Inl UnterminatedString
         else let s' = s\<lparr>current := current s + 1\<rparr>
              in Inr (push_back s' (Token STRING
                   (StringV (substr (str s') (start s' + 1) (current s' - start s' - 2))))))"

text \<open>\<open>while (isdigit(getCurrValue())) current++;\<close>\<close>

function digits_loop :: "Scanner \<Rightarrow> Scanner" where
  "digits_loop s =
     (if isdigit (Scanner_getCurrValue s)
      then digits_loop (s\<lparr>current := current s + 1\<rparr>)
      else s)"
  by pat_completeness auto
termination
  by (relation "measure (\<lambda>s. length (str s) - current s)")
     (auto simp: isLast_def Scanner_getCurrValue_def isdigit_def split: if_splits)

definition addNumber :: "Scanner \<Rightarrow> error + Scanner" where
  "addNumber s0 =
     (let s = digits_loop s0
      in if Scanner_getCurrValue s = CHR ''.''
         then if \<not> isdigit (getNextValue s) then Inl ExpectedDigitAfterDot
              else let s' = digits_loop (s\<lparr>current := current s + 1\<rparr>)
                   in (case stod (substr (str s') (start s') (current s' - start s')) of
                         Inl e \<Rightarrow> Inl e
                       | Inr d \<Rightarrow> Inr (push_back s' (Token NUMBER (DoubleV d))))
         else (case stoi (substr (str s) (start s) (current s - start s)) of
                 Inl e \<Rightarrow> Inl e
               | Inr i \<Rightarrow> Inr (push_back s (Token NUMBER (IntV i)))))"

text \<open>\<open>while (isalpha(getCurrValue())) current++;\<close>\<close>

function alpha_loop :: "Scanner \<Rightarrow> Scanner" where
  "alpha_loop s =
     (if isalpha (Scanner_getCurrValue s)
      then alpha_loop (s\<lparr>current := current s + 1\<rparr>)
      else s)"
  by pat_completeness auto
termination
  by (relation "measure (\<lambda>s. length (str s) - current s)")
     (auto simp: isLast_def Scanner_getCurrValue_def isalpha_def split: if_splits)

definition addKeyword :: "Scanner \<Rightarrow> error + Scanner" where
  "addKeyword s0 =
     (let s = alpha_loop s0;
          keyword = substr (str s) (start s) (current s - start s)
      in if keyword = ''true'' then Inr (push_back s (Token BOOLEAN (BoolV True)))
         else if keyword = ''false'' then Inr (push_back s (Token BOOLEAN (BoolV False)))
         else if keyword = ''null'' then Inr (push_back s (Token NULL_VALUE Monostate))
         else Inl UnexpectedToken)"

definition scanToken :: "Scanner \<Rightarrow> error + Scanner" where
  "scanToken s0 =
     (case Scanner_advanceCurrent s0 of
        Inl e \<Rightarrow> Inl e
      | Inr (c, s) \<Rightarrow>
          if c = CHR ''{'' then Inr (push_back s (Token LEFT_CURLY (StringV [c])))
          else if c = CHR ''}'' then Inr (push_back s (Token RIGHT_CURLY (StringV [c])))
          else if c = CHR ''['' then Inr (push_back s (Token LEFT_SQUARE (StringV [c])))
          else if c = CHR '']'' then Inr (push_back s (Token RIGHT_SQUARE (StringV [c])))
          else if c = CHR '','' then Inr (push_back s (Token COMMA (StringV [c])))
          else if c = CHR '':'' then Inr (push_back s (Token COLON (StringV [c])))
          else if c = CHR 0x0A then Inr (s\<lparr>line := line s + 1\<rparr>)
          else if c = CHR '' '' then Inr s
          else if c = CHR ''\"'' then addString s
          else if c = CHR ''-'' then
            (if isdigit (Scanner_getCurrValue s)
             then (case Scanner_advanceCurrent s of
                     Inl e \<Rightarrow> Inl e
                   | Inr (_, s') \<Rightarrow> addNumber s')
             else Inl MinusNotFollowedByNumber)
          else if isdigit c then addNumber s
          else if isalpha c then addKeyword s
          else Inl UnexpectedToken)"


text \<open>One pass of the loop of \<open>scan\<close> moves the cursor forward and stays inside the text.\<close>

declare addString_loop.simps [simp del] digits_loop.simps [simp del] alpha_loop.simps [simp del]

lemma addString_loop_frame:
  "str (addString_loop s) = str s \<and> start (addString_loop s) = start s
   \<and> line (addString_loop s) = line s \<and> tokens (addString_loop s) = tokens s
   \<and> current s \<le> current (addString_loop s)
   \<and> (current s \<le> length (str s) \<longrightarrow> current (addString_loop s) \<le> length (str s))"
proof (induction s rule: addString_loop.induct)
  case (1 s)
  show ?case
  proof (cases "Scanner_getCurrValue s \<noteq> CHR ''\"'' \<and> \<not> isLast s")
    case True
    with 1 show ?thesis
      by (subst (1 2 3 4 5 6) addString_loop.simps) (auto simp: isLast_def)
  next
    case False
    then show ?thesis
      by (subst (1 2 3 4 5 6) addString_loop.simps) auto
  qed
qed

lemma digits_loop_frame:
  "str (digits_loop s) = str s \<and> start (digits_loop s) = start s
   \<and> line (digits_loop s) = line s \<and> tokens (digits_loop s) = tokens s
   \<and> current s \<le> current (digits_loop s)
   \<and> (current s \<le> length (str s) \<longrightarrow> current (digits_loop s) \<le> length (str s))"
proof (induction s rule: digits_loop.induct)
  case (1 s)
  show ?case
  proof (cases "isdigit (Scanner_getCurrValue s)")
    case True
    then have "current s < length (str s)"
      by (auto simp: Scanner_getCurrValue_def isLast_def isdigit_def split: if_splits)
    with True 1 show ?thesis
      by (subst (1 2 3 4 5 6) digits_loop.simps) auto
  next
    case False
    then show ?thesis
      by (subst (1 2 3 4 5 6) digits_loop.simps) auto
  qed
qed

lemma alpha_loop_frame:
  "str (alpha_loop s) = str s \<and> start (alpha_loop s) = start s
   \<and> line (alpha_loop s) = line s \<and> tokens (alpha_loop s) = tokens s
   \<and> current s \<le> current (alpha_loop s)
   \<and> (current s \<le> length (str s) \<longrightarrow> current (alpha_loop s) \<le> length (str s))"
proof (induction s rule: alpha_loop.induct)
  case (1 s)
  show ?case
  proof (cases "isalpha (Scanner_getCurrValue s)")
    case True
    then have "current s < length (str s)"
      by (auto simp: Scanner_getCurrValue_def isLast_def isalpha_def split: if_splits)
    with True 1 show ?thesis
      by (subst (1 2 3 4 5 6) alpha_loop.simps) auto
  next
    case False
    then show ?thesis
      by (subst (1 2 3 4 5 6) alpha_loop.simps) auto
  qed
qed

lemma addString_frame:
  assumes "addString s = Inr s'" "current s \<le> length (str s)"
  shows "str s' = str s \<and> current s < current s' \<and> current s' \<le> length (str s)"
  using assms addString_loop_frame [of s]
  by (auto simp: addString_def Let_def push_back_def isLast_def split: if_splits)

lemma addNumber_frame:
  assumes "addNumber s = Inr s'" "current s \<le> length (str s)"
  shows "str s' = str s \<and> current s \<le> current s' \<and> current s' \<le> length (str s)"
proof -
  let ?s1 = "digits_loop s"
  have 1: "str ?s1 = str s" "current s \<le> current ?s1" "current ?s1 \<le> length (str s)"
    using digits_loop_frame [of s] assms(2) by auto
  show ?thesis
  proof (cases "Scanner_getCurrValue ?s1 = CHR ''.''")
    case True
    then have lt: "current ?s1 < length (str s)"
      using 1 by (auto simp: Scanner_getCurrValue_def isLast_def split: if_splits)
    let ?s2 = "digits_loop (?s1\<lparr>current := current ?s1 + 1\<rparr>)"
    have 2: "str ?s2 = str s" "current ?s1 + 1 \<le> current ?s2" "current ?s2 \<le> length (str s)"
      using digits_loop_frame [of "?s1\<lparr>current := current ?s1 + 1\<rparr>"] 1 lt by auto
    from assms(1) True have "str s' = str ?s2 \<and> current s' = current ?s2"
      by (auto simp: addNumber_def Let_def push_back_def split: if_splits sum.splits)
    with 1 2 show ?thesis by auto
  next
    case False
    with assms(1) have "str s' = str ?s1 \<and> current s' = current ?s1"
      by (auto simp: addNumber_def Let_def push_back_def split: if_splits sum.splits)
    with 1 show ?thesis by auto
  qed
qed

lemma addKeyword_frame:
  assumes "addKeyword s = Inr s'" "current s \<le> length (str s)"
  shows "str s' = str s \<and> current s \<le> current s' \<and> current s' \<le> length (str s)"
  using assms alpha_loop_frame [of s]
  by (auto simp: addKeyword_def Let_def push_back_def split: if_splits)

lemma scanToken_advances:
  assumes "scanToken s = Inr s'"
  shows "str s' = str s \<and> current s < current s' \<and> current s' \<le> length (str s)"
proof -
  have lt: "current s < length (str s)"
  proof (rule ccontr)
    assume "\<not> current s < length (str s)"
    then have "scanToken s = Inl UnexpectedToken \<or> scanToken s = Inl OutOfBounds"
      by (auto simp: scanToken_def Scanner_advanceCurrent_def isdigit_def isalpha_def)
    with assms show False by auto
  qed
  from assms obtain c s1 where adv: "Scanner_advanceCurrent s = Inr (c, s1)"
    by (auto simp: scanToken_def split: sum.splits)
  with lt have s1: "str s1 = str s" "current s1 = current s + 1" "current s < length (str s)"
    by (auto simp: Scanner_advanceCurrent_def split: if_splits)
  have le: "current s1 \<le> length (str s1)" using s1 by simp
  consider (simple) "str s' = str s1 \<and> current s' = current s1"
    | (string) "addString s1 = Inr s'"
    | (number) "addNumber s1 = Inr s'"
    | (minus) s2 where "isdigit (Scanner_getCurrValue s1)"
        "Scanner_advanceCurrent s1 = Inr (CHR ''-'', s2) \<or> (\<exists>d. Scanner_advanceCurrent s1 = Inr (d, s2))"
        "addNumber s2 = Inr s'"
    | (keyword) "addKeyword s1 = Inr s'"
    using assms adv
    by (auto simp: scanToken_def push_back_def split: if_splits sum.splits)
  then show ?thesis
  proof cases
    case simple
    with s1 show ?thesis by simp
  next
    case string
    from addString_frame [OF this le] s1 show ?thesis by simp
  next
    case number
    from addNumber_frame [OF this le] s1 show ?thesis by simp
  next
    case minus
    from minus(1) have lt1: "current s1 < length (str s1)"
      by (auto simp: Scanner_getCurrValue_def isLast_def isdigit_def split: if_splits)
    with minus(2) have s2: "str s2 = str s1" "current s2 = current s1 + 1"
      by (auto simp: Scanner_advanceCurrent_def split: if_splits)
    with lt1 have "current s2 \<le> length (str s2)" by simp
    from addNumber_frame [OF minus(3) this] s1 s2 show ?thesis by simp
  next
    case keyword
    from addKeyword_frame [OF this le] s1 show ?thesis by simp
  qed
qed

text \<open>
  \<open>while (!isLast()) { start = current; scanToken(); }\<close> followed by the push of the
  \<open>EOF_TOKEN\<close>; an exception of \<open>scanToken\<close> leaves the loop.
\<close>

function scan_loop :: "Scanner \<Rightarrow> error + Token list" where
  "scan_loop s =
     (if isLast s then Inr (tokens s @ [Token EOF_TOKEN Monostate])
      else (case scanToken (s\<lparr>start := current s\<rparr>) of
              Inl e \<Rightarrow> Inl e
            | Inr s' \<Rightarrow> scan_loop s'))"
  by pat_completeness auto
termination
proof (relation "measure (\<lambda>s. length (str s) - current s)")
  show "wf (measure (\<lambda>s. length (str s) - current s))" by simp
next
  fix s s'
  assume "\<not> isLast s" and "scanToken (s\<lparr>start := current s\<rparr>) = Inr s'"
  from scanToken_advances [OF this(2)]
  show "(s', s) \<in> measure (\<lambda>s. length (str s) - current s)"
    by auto
qed

declare scan_loop.simps [simp del]

text \<open>\<open>Scanner(const string &str) : str(str), start(0), current(0), line(1) {}\<close>\<close>

definition Scanner_init :: "string \<Rightarrow> Scanner" where
  "Scanner_init input = \<lparr>str = input, start = 0, current = 0, line = 1, tokens = []\<rparr>"

definition scan :: "string \<Rightarrow> error + Token list" where
  "scan input = scan_loop (Scanner_init input)"

text \<open>
  The same loop with a bound on the number of turns: \<open>None\<close> when the bound is reached
  before the end of the text.
\<close>

fun scan_bounded :: "nat \<Rightarrow> Scanner \<Rightarrow> (error + Token list) option" where
  "scan_bounded n s =
     (if isLast s then Some (Inr (tokens s @ [Token EOF_TOKEN Monostate]))
      else (case n of
              0 \<Rightarrow> None
            | Suc m \<Rightarrow>
                (case scanToken (s\<lparr>start := current s\<rparr>) of
                   Inl e \<Rightarrow> Some (Inl e)
                 | Inr s' \<Rightarrow> scan_bounded m s')))"

declare scan_bounded.simps [simp del]


section \<open>The scanner as a function of the text that is left\<close>

text \<open>
  \<open>lex_token c cs\<close> is what one call of \<open>scanToken\<close> does when \<open>c\<close> is the character
  under the cursor and \<open>cs\<close> the text after it: the token pushed, if any, and the number
  of characters of \<open>cs\<close> consumed. \<open>lex\<close> is the loop of \<open>scan\<close>. They are derived from
  the scanner above and proved equal to it (\<open>scan_eq_lex\<close>).
\<close>

text \<open>The tokens pushed by one call of \<open>scanToken\<close>: none or one.\<close>

definition pushed :: "Token option \<Rightarrow> Token list" where
  "pushed t = (case t of None \<Rightarrow> [] | Some tok \<Rightarrow> [tok])"

definition lex_string :: "string \<Rightarrow> error + (Token option \<times> nat)" where
  "lex_string cs =
     (let body = takeWhile (\<lambda>c. c \<noteq> CHR ''\"'') cs
      in if length body = length cs then Inl UnterminatedString
         else Inr (Some (Token STRING (StringV body)), length body + 1))"

definition lex_number :: "string \<Rightarrow> string \<Rightarrow> error + (Token option \<times> nat)" where
  "lex_number pre cs =
     (let ds = takeWhile isdigit cs; r = drop (length ds) cs
      in if r \<noteq> [] \<and> hd r = CHR ''.''
         then if \<not> (tl r \<noteq> [] \<and> isdigit (hd (tl r))) then Inl ExpectedDigitAfterDot
              else let fs = takeWhile isdigit (tl r)
                   in (case stod (pre @ ds @ ''.'' @ fs) of
                         Inl e \<Rightarrow> Inl e
                       | Inr d \<Rightarrow>
                           Inr (Some (Token NUMBER (DoubleV d)), length ds + 1 + length fs))
         else (case stoi (pre @ ds) of
                 Inl e \<Rightarrow> Inl e
               | Inr i \<Rightarrow> Inr (Some (Token NUMBER (IntV i)), length ds)))"

definition lex_keyword :: "char \<Rightarrow> string \<Rightarrow> error + (Token option \<times> nat)" where
  "lex_keyword c cs =
     (let w = takeWhile isalpha cs; keyword = c # w
      in if keyword = ''true'' then Inr (Some (Token BOOLEAN (BoolV True)), length w)
         else if keyword = ''false'' then Inr (Some (Token BOOLEAN (BoolV False)), length w)
         else if keyword = ''null'' then Inr (Some (Token NULL_VALUE Monostate), length w)
         else Inl UnexpectedToken)"

definition lex_token :: "char \<Rightarrow> string \<Rightarrow> error + (Token option \<times> nat)" where
  "lex_token c cs =
     (if c = CHR ''{'' then Inr (Some (Token LEFT_CURLY (StringV [c])), 0)
      else if c = CHR ''}'' then Inr (Some (Token RIGHT_CURLY (StringV [c])), 0)
      else if c = CHR ''['' then Inr (Some (Token LEFT_SQUARE (StringV [c])), 0)
      else if c = CHR '']'' then Inr (Some (Token RIGHT_SQUARE (StringV [c])), 0)
      else if c = CHR '','' then Inr (Some (Token COMMA (StringV [c])), 0)
      else if c = CHR '':'' then Inr (Some (Token COLON (StringV [c])), 0)
      else if c = CHR 0x0A then Inr (None, 0)
      else if c = CHR '' '' then Inr (None, 0)
      else if c = CHR ''\"'' then lex_string cs
      else if c = CHR ''-'' then
        (case cs of
           [] \<Rightarrow> Inl MinusNotFollowedByNumber
         | d # cs' \<Rightarrow>
             if isdigit d
             then (case lex_number [c, d] cs' of
                     Inl e \<Rightarrow> Inl e
                   | Inr (t, n) \<Rightarrow> Inr (t, n + 1))
             else Inl MinusNotFollowedByNumber)
      else if isdigit c then lex_number [c] cs
      else if isalpha c then lex_keyword c cs
      else Inl UnexpectedToken)"

fun lex :: "string \<Rightarrow> error + Token list" where
  "lex [] = Inr [Token EOF_TOKEN Monostate]"
| "lex (c # cs) =
     (case lex_token c cs of
        Inl e \<Rightarrow> Inl e
      | Inr (t, n) \<Rightarrow>
          (case lex (drop n cs) of
             Inl e \<Rightarrow> Inl e
           | Inr ts \<Rightarrow> Inr (case t of None \<Rightarrow> ts | Some tok \<Rightarrow> tok # ts)))"


section \<open>Parser\<close>

text \<open>
  The members of \<open>class Parser\<close> are the token vector, which never changes, and the
  cursor \<open>current\<close>. Each method takes the tokens and the cursor and returns its result
  or the exception thrown, with the cursor as it stands then.
\<close>

type_synonym 'a parser_result = "(error + 'a) \<times> nat"

text \<open>\<open>Token token = tokens[current]; current++; return token;\<close>\<close>

definition Parser_advanceCurrent :: "Token list \<Rightarrow> nat \<Rightarrow> Token parser_result" where
  "Parser_advanceCurrent ts cur =
     (if cur < length ts then (Inr (ts ! cur), cur + 1) else (Inl OutOfBounds, cur))"

definition Parser_getCurrValue :: "Token list \<Rightarrow> nat \<Rightarrow> error + Token" where
  "Parser_getCurrValue ts cur = (if cur < length ts then Inr (ts ! cur) else Inl OutOfBounds)"

definition consume :: "Token list \<Rightarrow> TokenType \<Rightarrow> error \<Rightarrow> nat \<Rightarrow> unit parser_result" where
  "consume ts tt err cur =
     (case Parser_getCurrValue ts cur of
        Inl e \<Rightarrow> (Inl e, cur)
      | Inr t \<Rightarrow> if token_type t \<noteq> tt then (Inl err, cur) else (Inr (), cur + 1))"

definition consume_until_comma :: "Token list \<Rightarrow> TokenType \<Rightarrow> nat \<Rightarrow> unit parser_result" where
  "consume_until_comma ts exception cur =
     (case Parser_getCurrValue ts cur of
        Inl e \<Rightarrow> (Inl e, cur)
      | Inr t \<Rightarrow>
          if token_type t = COMMA then (Inr (), cur + 1)
          else if token_type t \<noteq> exception then (Inl MissingComma, cur)
          else (Inr (), cur))"

text \<open>\<open>get<string>(token.value)\<close>\<close>

definition get_string :: "TokenValue \<Rightarrow> error + string" where
  "get_string v = (case v of StringV s \<Rightarrow> Inr s | _ \<Rightarrow> Inl BadVariantAccess)"

text \<open>
  \<open>parse_from_token\<close>, \<open>parse_object\<close> and \<open>parse_array\<close> call each other; the loops of
  the latter two are \<open>parse_object_loop\<close> and \<open>parse_array_loop\<close>, entered with the token
  read last. The first argument is fuel: a call with none left gives \<open>OutOfFuel\<close>.
  In \<open>json_object[get<string>(key_token.value)] = parse_from_token(value_token)\<close>
  the right operand is evaluated first.
\<close>

fun parse_from_token :: "nat \<Rightarrow> Token list \<Rightarrow> Token \<Rightarrow> nat \<Rightarrow> JsonValue parser_result"
  and parse_object_loop ::
    "nat \<Rightarrow> Token list \<Rightarrow> JsonObject \<Rightarrow> Token \<Rightarrow> nat \<Rightarrow> JsonObject parser_result"
  and parse_array_loop ::
    "nat \<Rightarrow> Token list \<Rightarrow> JsonArray \<Rightarrow> Token \<Rightarrow> nat \<Rightarrow> JsonArray parser_result"
where
  "parse_from_token 0 ts token cur = (Inl OutOfFuel, cur)"
| "parse_from_token (Suc n) ts token cur =
     (case token_type token of
        STRING \<Rightarrow>
          (case token_value token of
             StringV s \<Rightarrow> (Inr (JString s), cur)
           | _ \<Rightarrow> (Inl BadVariantAccess, cur))
      | NUMBER \<Rightarrow>
          (case token_value token of
             IntV i \<Rightarrow> (Inr (JInt i), cur)
           | DoubleV d \<Rightarrow> (Inr (JDouble d), cur)
           | _ \<Rightarrow> (Inl BadVariantAccess, cur))
      | BOOLEAN \<Rightarrow>
          (case token_value token of
             BoolV b \<Rightarrow> (Inr (JBool b), cur)
           | _ \<Rightarrow> (Inl BadVariantAccess, cur))
      | NULL_VALUE \<Rightarrow> (Inr JNull, cur)
      | LEFT_CURLY \<Rightarrow>
          (case Parser_advanceCurrent ts cur of
             (Inl e, c) \<Rightarrow> (Inl e, c)
           | (Inr key_token, c) \<Rightarrow>
               (case parse_object_loop n ts [] key_token c of
                  (Inl e, c') \<Rightarrow> (Inl e, c')
                | (Inr obj, c') \<Rightarrow> (Inr (JObject obj), c')))
      | LEFT_SQUARE \<Rightarrow>
          (case Parser_advanceCurrent ts cur of
             (Inl e, c) \<Rightarrow> (Inl e, c)
           | (Inr token', c) \<Rightarrow>
               (case parse_array_loop n ts [] token' c of
                  (Inl e, c') \<Rightarrow> (Inl e, c')
                | (Inr arr, c') \<Rightarrow> (Inr (JArray arr), c')))
      | _ \<Rightarrow> (Inl UnexpectedToken, cur))"
| "parse_object_loop 0 ts json_object key_token cur = (Inl OutOfFuel, cur)"
| "parse_object_loop (Suc n) ts json_object key_token cur =
     (if token_type key_token \<noteq> RIGHT_CURLY then
        if token_type key_token = EOF_TOKEN then (Inl UnterminatedObject, cur)
        else if token_type key_token \<noteq> STRING then (Inl KeyMustBeString, cur)
        else
          (case consume ts COLON ExpectedColon cur of
             (Inl e, c1) \<Rightarrow> (Inl e, c1)
           | (Inr _, c1) \<Rightarrow>
               (case Parser_advanceCurrent ts c1 of
                  (Inl e, c2) \<Rightarrow> (Inl e, c2)
                | (Inr value_token, c2) \<Rightarrow>
                    (case parse_from_token n ts value_token c2 of
                       (Inl e, c3) \<Rightarrow> (Inl e, c3)
                     | (Inr v, c3) \<Rightarrow>
                         (case get_string (token_value key_token) of
                            Inl e \<Rightarrow> (Inl e, c3)
                          | Inr k \<Rightarrow>
                              (case consume_until_comma ts RIGHT_CURLY c3 of
                                 (Inl e, c4) \<Rightarrow> (Inl e, c4)
                               | (Inr _, c4) \<Rightarrow>
                                   (case Parser_advanceCurrent ts c4 of
                                      (Inl e, c5) \<Rightarrow> (Inl e, c5)
                                    | (Inr key_token', c5) \<Rightarrow>
                                        parse_object_loop n ts (map_assign json_object k v)
                                          key_token' c5))))))
      else (Inr json_object, cur))"
| "parse_array_loop 0 ts json_array token cur = (Inl OutOfFuel, cur)"
| "parse_array_loop (Suc n) ts json_array token cur =
     (if token_type token \<noteq> RIGHT_SQUARE then
        if token_type token = EOF_TOKEN then (Inl UnterminatedArray, cur)
        else
          (case parse_from_token n ts token cur of
             (Inl e, c1) \<Rightarrow> (Inl e, c1)
           | (Inr v, c1) \<Rightarrow>
               (case consume_until_comma ts RIGHT_SQUARE c1 of
                  (Inl e, c2) \<Rightarrow> (Inl e, c2)
                | (Inr _, c2) \<Rightarrow>
                    (case Parser_advanceCurrent ts c2 of
                       (Inl e, c3) \<Rightarrow> (Inl e, c3)
                     | (Inr token', c3) \<Rightarrow>
                         parse_array_loop n ts (json_array @ [v]) token' c3)))
      else (Inr json_array, cur))"

text \<open>
  \<open>Parser::parse\<close> on a parser built from \<open>ts\<close> (cursor 0). Every call of
  \<open>parse_from_token\<close> and every turn of a loop comes after a token was read, so the
  turns and calls made are at most two for each token: twice the number of tokens is
  fuel enough.
\<close>

definition Parser_parse :: "Token list \<Rightarrow> JsonValue parser_result" where
  "Parser_parse ts =
     (case Parser_advanceCurrent ts 0 of
        (Inl e, c) \<Rightarrow> (Inl e, c)
      | (Inr token, c) \<Rightarrow> parse_from_token (2 * length ts) ts token c)"

text \<open>\<open>JsonValue parse(const string &input)\<close>\<close>

definition parse :: "string \<Rightarrow> error + JsonValue" where
  "parse input = (case scan input of Inl e \<Rightarrow> Inl e | Inr ts \<Rightarrow> fst (Parser_parse ts))"


section \<open>Renderer\<close>

text \<open>
  \<open>print_json\<close> writes to \<open>cout\<close>; the model returns the characters written.
  \<open>cout << int\<close> writes the decimal digits, after a \<open>-\<close> for a negative value.
\<close>

definition digit_char :: "nat \<Rightarrow> char" where
  "digit_char d = ''0123456789'' ! d"

fun show_nat :: "nat \<Rightarrow> string" where
  "show_nat n =
     (if n < 10 then [digit_char n]
      else show_nat (n div 10) @ [digit_char (n mod 10)])"

declare show_nat.simps [simp del]

definition show_int :: "int \<Rightarrow> string" where
  "show_int i = (if i < 0 then CHR ''-'' # show_nat (nat (- i)) else show_nat (nat i))"

text \<open>
  \<open>cout << double\<close> with the stream's default flags formats as \<open>printf("%g")\<close> does, with
  precision 6: the value is rounded to six significant digits, \<open>X\<close> being the decimal
  exponent of the rounded value; for \<open>-4 \<le> X < 6\<close> the digits are written in fixed
  notation, otherwise as \<open>d.ddddde\<plusminus>XX\<close>; trailing zeros of the fraction, and a point
  with no fraction left, are dropped.
\<close>

definition strip_zeros :: "string \<Rightarrow> string" where
  "strip_zeros ds = rev (dropWhile (\<lambda>c. c = CHR ''0'') (rev ds))"

definition with_fraction :: "string \<Rightarrow> string \<Rightarrow> string" where
  "with_fraction ip fp = (let f = strip_zeros fp in if f = [] then ip else ip @ ''.'' @ f)"

definition show_magnitude :: "rat \<Rightarrow> string" where
  "show_magnitude m =
     (if m = 0 then ''0''
      else
        let e0 = floor_log 10 m;
            r0 = round_half_even (scale 10 m (5 - e0));
            r = (if r0 = 1000000 then 100000 else r0);
            X = (if r0 = 1000000 then e0 + 1 else e0);
            ds = show_nat r
        in if - 4 \<le> X \<and> X < 6 then
             (if 0 \<le> X then with_fraction (take (nat X + 1) ds) (drop (nat X + 1) ds)
              else with_fraction ''0'' (replicate (nat (- X) - 1) (CHR ''0'') @ ds))
           else
             with_fraction (take 1 ds) (drop 1 ds) @ ''e''
               @ (if X < 0 then ''-'' else ''+'')
               @ (if \<bar>X\<bar> < 10 then ''0'' else []) @ show_nat (nat \<bar>X\<bar>))"

definition show_double :: "double \<Rightarrow> string" where
  "show_double d = (if negative d then ''-'' else []) @ show_magnitude (magnitude d)"

text \<open>\<open>string(indent, ' ')\<close>\<close>

definition spaces :: "nat \<Rightarrow> string" where
  "spaces n = replicate n (CHR '' '')"

text \<open>
  \<open>print_json\<close>, with the loops of \<open>print_json_object\<close> and \<open>print_json_array\<close> over the
  entries and elements that are left.
\<close>

fun print_json :: "JsonValue \<Rightarrow> nat \<Rightarrow> string"
  and print_object_entries :: "(string \<times> JsonValue) list \<Rightarrow> nat \<Rightarrow> string"
  and print_entry :: "string \<times> JsonValue \<Rightarrow> nat \<Rightarrow> string"
  and print_array_elements :: "JsonValue list \<Rightarrow> nat \<Rightarrow> string"
where
  "print_json (JObject obj) indent =
     spaces indent @ [CHR ''{'', CHR 0x0A] @ print_object_entries obj indent
       @ spaces indent @ ''}''"
| "print_json (JArray arr) indent =
     spaces indent @ [CHR ''['', CHR 0x0A] @ print_array_elements arr indent
       @ spaces indent @ '']''"
| "print_json (JString s) indent = [CHR ''\"''] @ s @ [CHR ''\"'']"
| "print_json (JInt i) indent = show_int (sint i)"
| "print_json (JDouble d) indent = show_double d"
| "print_json (JBool b) indent = (if b then ''true'' else ''false'')"
| "print_json JNull indent = ''null''"
| "print_object_entries [] indent = []"
| "print_object_entries (kv # rest) indent =
     print_entry kv indent
       @ (if rest \<noteq> [] then '','' else []) @ [CHR 0x0A]
       @ print_object_entries rest indent"
| "print_entry (k, v) indent =
     spaces (indent + 2) @ [CHR ''\"''] @ k @ [CHR ''\"'', CHR '':'', CHR '' '']
       @ print_json v (indent + 2)"
| "print_array_elements [] indent = []"
| "print_array_elements (v # rest) indent =
     print_json v (indent + 2)
       @ (if rest \<noteq> [] then '','' else []) @ [CHR 0x0A]
       @ print_array_elements rest indent"

text \<open>\<open>print_json(value)\<close> with the default \<open>indent = 0\<close>.\<close>

definition render :: "JsonValue \<Rightarrow> string" where
  "render v = print_json v 0"

section \<open>The scanner of the source and the function of the text agree\<close>

lemma drop_current_Cons:
  "current s < length (str s) \<Longrightarrow>
   drop (current s) (str s) = str s ! current s # drop (Suc (current s)) (str s)"
  by (simp add: Cons_nth_drop_Suc)

lemma addString_loop_spec:
  "current s \<le> length (str s) \<Longrightarrow>
   addString_loop s =
     s\<lparr>current := current s
          + length (takeWhile (\<lambda>c. c \<noteq> CHR ''\"'') (drop (current s) (str s)))\<rparr>"
proof (induction s rule: addString_loop.induct)
  case (1 s)
  show ?case
  proof (cases "Scanner_getCurrValue s \<noteq> CHR ''\"'' \<and> \<not> isLast s")
    case True
    then have lt: "current s < length (str s)" and ne: "str s ! current s \<noteq> CHR ''\"''"
      by (auto simp: isLast_def Scanner_getCurrValue_def)
    from 1(1) [OF True] lt
    have "addString_loop (s\<lparr>current := current s + 1\<rparr>) =
            s\<lparr>current := current s + 1
              + length (takeWhile (\<lambda>c. c \<noteq> CHR ''\"'') (drop (current s + 1) (str s)))\<rparr>"
      by simp
    with True lt ne show ?thesis
      by (subst addString_loop.simps) (simp add: drop_current_Cons)
  next
    case False
    then have "takeWhile (\<lambda>c. c \<noteq> CHR ''\"'') (drop (current s) (str s)) = []"
      using 1(2)
      by (cases "current s < length (str s)")
         (auto simp: isLast_def Scanner_getCurrValue_def drop_current_Cons)
    with False show ?thesis
      by (subst addString_loop.simps) auto
  qed
qed

lemma digits_loop_spec:
  "current s \<le> length (str s) \<Longrightarrow>
   digits_loop s =
     s\<lparr>current := current s + length (takeWhile isdigit (drop (current s) (str s)))\<rparr>"
proof (induction s rule: digits_loop.induct)
  case (1 s)
  show ?case
  proof (cases "isdigit (Scanner_getCurrValue s)")
    case True
    then have lt: "current s < length (str s)" and d: "isdigit (str s ! current s)"
      by (auto simp: isLast_def Scanner_getCurrValue_def isdigit_def split: if_splits)
    from 1(1) [OF True] lt
    have "digits_loop (s\<lparr>current := current s + 1\<rparr>) =
            s\<lparr>current := current s + 1
              + length (takeWhile isdigit (drop (current s + 1) (str s)))\<rparr>"
      by simp
    with True lt d show ?thesis
      by (subst digits_loop.simps) (simp add: drop_current_Cons)
  next
    case False
    then have "takeWhile isdigit (drop (current s) (str s)) = []"
      using 1(2)
      by (cases "current s < length (str s)")
         (auto simp: isLast_def Scanner_getCurrValue_def drop_current_Cons)
    with False show ?thesis
      by (subst digits_loop.simps) simp
  qed
qed

lemma alpha_loop_spec:
  "current s \<le> length (str s) \<Longrightarrow>
   alpha_loop s =
     s\<lparr>current := current s + length (takeWhile isalpha (drop (current s) (str s)))\<rparr>"
proof (induction s rule: alpha_loop.induct)
  case (1 s)
  show ?case
  proof (cases "isalpha (Scanner_getCurrValue s)")
    case True
    then have lt: "current s < length (str s)" and d: "isalpha (str s ! current s)"
      by (auto simp: isLast_def Scanner_getCurrValue_def isalpha_def split: if_splits)
    from 1(1) [OF True] lt
    have "alpha_loop (s\<lparr>current := current s + 1\<rparr>) =
            s\<lparr>current := current s + 1
              + length (takeWhile isalpha (drop (current s + 1) (str s)))\<rparr>"
      by simp
    with True lt d show ?thesis
      by (subst alpha_loop.simps) (simp add: drop_current_Cons)
  next
    case False
    then have "takeWhile isalpha (drop (current s) (str s)) = []"
      using 1(2)
      by (cases "current s < length (str s)")
         (auto simp: isLast_def Scanner_getCurrValue_def drop_current_Cons)
    with False show ?thesis
      by (subst alpha_loop.simps) simp
  qed
qed

lemma take_takeWhile_length: "take (length (takeWhile P xs)) xs = takeWhile P xs"
  by (metis takeWhile_eq_take)

lemma length_takeWhile_drop_le:
  "n \<le> length xs \<Longrightarrow> n + length (takeWhile P (drop n xs)) \<le> length xs"
  using length_takeWhile_le [of P "drop n xs"] by simp

lemma take_diff_drop:
  "a \<le> b \<Longrightarrow> take (b + n - a) (drop a xs) = take (b - a) (drop a xs) @ take n (drop b xs)"
proof -
  assume "a \<le> b"
  then have "b + n - a = (b - a) + n" by simp
  then have "take (b + n - a) (drop a xs) = take (b - a) (drop a xs) @ take n (drop (b - a) (drop a xs))"
    by (simp add: take_add)
  with \<open>a \<le> b\<close> show ?thesis by simp
qed

lemma addString_lex:
  assumes "current s \<le> length (str s)" "current s = start s + 1"
  shows "addString s =
     (case lex_string (drop (current s) (str s)) of
        Inl e \<Rightarrow> Inl e
      | Inr (t, n) \<Rightarrow> Inr (s\<lparr>current := current s + n, tokens := tokens s @ pushed t\<rparr>))"
proof -
  let ?cs = "drop (current s) (str s)"
  let ?body = "takeWhile (\<lambda>c. c \<noteq> CHR ''\"'') ?cs"
  have loop: "addString_loop s = s\<lparr>current := current s + length ?body\<rparr>"
    by (rule addString_loop_spec [OF assms(1)])
  have le: "length ?body \<le> length ?cs" by (rule length_takeWhile_le)
  have last: "isLast (s\<lparr>current := current s + length ?body\<rparr>) \<longleftrightarrow> length ?body = length ?cs"
    using le assms(1) by (auto simp: isLast_def)
  have sub: "substr (str s) (start s + 1) (current s + length ?body + 1 - start s - 2) = ?body"
    using assms(2) by (simp add: substr_def take_takeWhile_length)
  show ?thesis
    unfolding addString_def loop Let_def last lex_string_def
    using sub by (simp add: push_back_def pushed_def)
qed

lemma getCurr_dot:
  "Scanner_getCurrValue s = CHR ''.'' \<longleftrightarrow>
     drop (current s) (str s) \<noteq> [] \<and> hd (drop (current s) (str s)) = CHR ''.''"
  by (auto simp: Scanner_getCurrValue_def isLast_def hd_drop_conv_nth)

lemma getNext_digit:
  "isdigit (getNextValue s) \<longleftrightarrow>
     tl (drop (current s) (str s)) \<noteq> [] \<and> isdigit (hd (tl (drop (current s) (str s))))"
proof -
  have tl: "tl (drop (current s) (str s)) = drop (Suc (current s)) (str s)"
    by (simp add: drop_Suc tl_drop)
  have sp: "\<not> isdigit (CHR '' '')" by (simp add: isdigit_def)
  show ?thesis
    unfolding tl using sp
    by (auto simp: getNextValue_def hd_drop_conv_nth)
qed

lemma addNumber_lex:
  assumes "current s \<le> length (str s)" "start s \<le> current s"
  shows "addNumber s =
     (case lex_number (take (current s - start s) (drop (start s) (str s)))
                      (drop (current s) (str s)) of
        Inl e \<Rightarrow> Inl e
      | Inr (t, n) \<Rightarrow> Inr (s\<lparr>current := current s + n, tokens := tokens s @ pushed t\<rparr>))"
proof -
  let ?pre = "take (current s - start s) (drop (start s) (str s))"
  let ?cs = "drop (current s) (str s)"
  let ?ds = "takeWhile isdigit ?cs"
  let ?r = "drop (length ?ds) ?cs"
  let ?s1 = "s\<lparr>current := current s + length ?ds\<rparr>"
  have loop1: "digits_loop s = ?s1"
    by (rule digits_loop_spec [OF assms(1)])
  have c1: "current ?s1 \<le> length (str ?s1)"
    using length_takeWhile_drop_le [OF assms(1)] by simp
  have r: "drop (current ?s1) (str ?s1) = ?r" by (simp add: add.commute)
  have lit1: "substr (str ?s1) (start ?s1) (current ?s1 - start ?s1) = ?pre @ ?ds"
    using take_diff_drop [OF assms(2), of "length ?ds" "str s"]
    by (simp add: substr_def take_takeWhile_length)
  show ?thesis
  proof (cases "?r \<noteq> [] \<and> hd ?r = CHR ''.''")
    case False
    then have nd: "Scanner_getCurrValue ?s1 \<noteq> CHR ''.''"
      unfolding getCurr_dot r by simp
    show ?thesis
      unfolding addNumber_def loop1 Let_def lex_number_def
      using nd False lit1
      by (auto simp: push_back_def pushed_def split: sum.splits)
  next
    case True
    then have dot: "Scanner_getCurrValue ?s1 = CHR ''.''"
      unfolding getCurr_dot r by simp
    have nxt: "isdigit (getNextValue ?s1) \<longleftrightarrow> tl ?r \<noteq> [] \<and> isdigit (hd (tl ?r))"
      unfolding getNext_digit r ..
    let ?fs = "takeWhile isdigit (tl ?r)"
    let ?s2 = "?s1\<lparr>current := current ?s1 + 1\<rparr>"
    from True have lt: "current ?s1 < length (str ?s1)"
      using c1 by (cases "current ?s1 = length (str ?s1)") auto
    then have c2: "current ?s2 \<le> length (str ?s2)" by simp
    have r2: "drop (current ?s2) (str ?s2) = tl ?r"
      by (simp add: drop_Suc tl_drop add.commute)
    have loop2: "digits_loop ?s2 = ?s2\<lparr>current := current ?s2 + length ?fs\<rparr>"
      using digits_loop_spec [OF c2] unfolding r2 .
    have rdot: "?r = CHR ''.'' # tl ?r" using True by (cases ?r) auto
    have "take (1 + length ?fs) ?r = CHR ''.'' # ?fs"
      by (subst rdot) (simp add: take_takeWhile_length)
    then have t2: "take (1 + length ?fs) (drop (current s + length ?ds) (str s)) = CHR ''.'' # ?fs"
      by (simp add: add.commute)
    let ?s3 = "?s2\<lparr>current := current ?s2 + length ?fs\<rparr>"
    have le2: "start s \<le> current s + length ?ds" using assms(2) by simp
    have "take (current s + length ?ds + (1 + length ?fs) - start s) (drop (start s) (str s))
          = take (current s + length ?ds - start s) (drop (start s) (str s)) @ CHR ''.'' # ?fs"
      using take_diff_drop [OF le2, of "1 + length ?fs" "str s"] t2 by simp
    moreover have "take (current s + length ?ds - start s) (drop (start s) (str s)) = ?pre @ ?ds"
      using lit1 by (simp add: substr_def)
    ultimately have lit2:
      "substr (str ?s3) (start ?s3) (current ?s3 - start ?s3) = ?pre @ ?ds @ ''.'' @ ?fs"
      by (simp add: substr_def add.assoc)
    have fin: "push_back ?s3 tok = s\<lparr>current := current s + (length ?ds + 1 + length ?fs),
                                        tokens := tokens s @ [tok]\<rparr>" for tok
      by (simp add: push_back_def add.assoc)
    show ?thesis
      unfolding addNumber_def loop1 Let_def loop2 lit2 lex_number_def fin
      using dot nxt True
      by (auto simp: pushed_def split: sum.splits)
  qed
qed

lemma addKeyword_lex:
  assumes "current s \<le> length (str s)" "current s = start s + 1" "start s < length (str s)"
  shows "addKeyword s =
     (case lex_keyword (str s ! start s) (drop (current s) (str s)) of
        Inl e \<Rightarrow> Inl e
      | Inr (t, n) \<Rightarrow> Inr (s\<lparr>current := current s + n, tokens := tokens s @ pushed t\<rparr>))"
proof -
  let ?cs = "drop (current s) (str s)"
  let ?w = "takeWhile isalpha ?cs"
  let ?s1 = "s\<lparr>current := current s + length ?w\<rparr>"
  have loop: "alpha_loop s = ?s1"
    by (rule alpha_loop_spec [OF assms(1)])
  have le: "start s \<le> current s" using assms(2) by simp
  have "take (current s - start s) (drop (start s) (str s)) = [str s ! start s]"
    using assms(2,3) by (simp add: take_Suc_conv_app_nth hd_drop_conv_nth take_Suc)
  then have kw: "substr (str ?s1) (start ?s1) (current ?s1 - start ?s1) = str s ! start s # ?w"
    using take_diff_drop [OF le, of "length ?w" "str s"]
    by (simp add: substr_def take_takeWhile_length)
  show ?thesis
    unfolding addKeyword_def loop Let_def lex_keyword_def kw
    by (simp add: push_back_def pushed_def)
qed

lemma lex_number_le:
  "lex_number pre cs = Inr (t, n) \<Longrightarrow> n \<le> length cs"
proof -
  let ?ds = "takeWhile isdigit cs"
  let ?r = "drop (length ?ds) cs"
  let ?fs = "takeWhile isdigit (tl ?r)"
  assume a: "lex_number pre cs = Inr (t, n)"
  have 1: "length ?ds \<le> length cs" by (rule length_takeWhile_le)
  have 2: "?r \<noteq> [] \<Longrightarrow> length ?ds + 1 + length ?fs \<le> length cs"
  proof -
    assume "?r \<noteq> []"
    then have "length ?r = Suc (length (tl ?r))" by (cases ?r) auto
    moreover have "length ?fs \<le> length (tl ?r)" by (rule length_takeWhile_le)
    ultimately have "1 + length ?fs \<le> length ?r" by simp
    then show ?thesis by simp
  qed
  from a 1 2 show ?thesis
    by (auto simp: lex_number_def Let_def split: if_splits sum.splits)
qed

lemma lex_token_le:
  "lex_token c cs = Inr (t, n) \<Longrightarrow> n \<le> length cs"
proof -
  assume a: "lex_token c cs = Inr (t, n)"
  have s: "lex_string cs = Inr (t, n) \<Longrightarrow> n \<le> length cs"
    using length_takeWhile_le [of "\<lambda>c. c \<noteq> CHR ''\"''" cs]
    by (auto simp: lex_string_def Let_def split: if_splits)
  have k: "lex_keyword c cs = Inr (t, n) \<Longrightarrow> n \<le> length cs"
    using length_takeWhile_le [of isalpha cs]
    by (auto simp: lex_keyword_def Let_def split: if_splits)
  from a s k lex_number_le [of "[c]" cs t n] show ?thesis
    by (auto simp: lex_token_def split: if_splits list.splits sum.splits dest: lex_number_le)
qed

lemma scanToken_lex:
  assumes "current s < length (str s)" "start s = current s"
  shows "scanToken s =
     (case lex_token (str s ! current s) (drop (Suc (current s)) (str s)) of
        Inl e \<Rightarrow> Inl e
      | Inr (t, n) \<Rightarrow>
          Inr (s\<lparr>current := current s + 1 + n,
                 line := (if str s ! current s = CHR 0x0A then line s + 1 else line s),
                 tokens := tokens s @ pushed t\<rparr>))"
proof -
  let ?c = "str s ! current s"
  let ?cs = "drop (Suc (current s)) (str s)"
  let ?s1 = "s\<lparr>current := current s + 1\<rparr>"
  have adv: "Scanner_advanceCurrent s = Inr (?c, ?s1)"
    using assms(1) by (simp add: Scanner_advanceCurrent_def)
  have c1: "current ?s1 \<le> length (str ?s1)" using assms(1) by simp
  have cs1: "drop (current ?s1) (str ?s1) = ?cs" by simp
  have str1: "addString ?s1 =
     (case lex_string ?cs of
        Inl e \<Rightarrow> Inl e
      | Inr (t, n) \<Rightarrow> Inr (s\<lparr>current := current s + 1 + n, tokens := tokens s @ pushed t\<rparr>))"
    using addString_lex [OF c1] assms(2) by (simp split: sum.splits)
  have pre1: "take (current ?s1 - start ?s1) (drop (start ?s1) (str ?s1)) = [?c]"
    using assms by (simp add: take_Suc hd_drop_conv_nth)
  have num1: "addNumber ?s1 =
     (case lex_number [?c] ?cs of
        Inl e \<Rightarrow> Inl e
      | Inr (t, n) \<Rightarrow> Inr (s\<lparr>current := current s + 1 + n, tokens := tokens s @ pushed t\<rparr>))"
    using addNumber_lex [OF c1, unfolded pre1 cs1] assms(2) by (simp split: sum.splits)
  have kw1: "addKeyword ?s1 =
     (case lex_keyword ?c ?cs of
        Inl e \<Rightarrow> Inl e
      | Inr (t, n) \<Rightarrow> Inr (s\<lparr>current := current s + 1 + n, tokens := tokens s @ pushed t\<rparr>))"
    using addKeyword_lex [OF c1] assms by (simp split: sum.splits)
  show ?thesis
  proof (cases "?c = CHR ''-''")
    case False
    show ?thesis
      unfolding scanToken_def adv sum.case prod.case str1 num1 kw1 lex_token_def
      using False
      by (simp add: push_back_def pushed_def split: sum.split prod.split)
  next
    case True
    show ?thesis
    proof (cases ?cs)
      case Nil
      then have "\<not> isdigit (Scanner_getCurrValue ?s1)"
        by (simp add: Scanner_getCurrValue_def isLast_def isdigit_def)
      with True Nil show ?thesis
        unfolding scanToken_def adv sum.case prod.case lex_token_def
        by simp
    next
      case (Cons d cs')
      then have lt: "current ?s1 < length (str ?s1)"
        by (cases "Suc (current s) < length (str s)") auto
      have "hd (drop (Suc (current s)) (str s)) = d" using Cons by simp
      then have d: "str s ! Suc (current s) = d"
        using lt by (simp add: hd_drop_conv_nth)
      have g: "Scanner_getCurrValue ?s1 = d"
        using lt d by (simp add: Scanner_getCurrValue_def isLast_def)
      let ?s2 = "?s1\<lparr>current := current ?s1 + 1\<rparr>"
      have adv2: "Scanner_advanceCurrent ?s1 = Inr (d, ?s2)"
        using lt d by (simp add: Scanner_advanceCurrent_def)
      have c2: "current ?s2 \<le> length (str ?s2)" using lt by simp
      have "tl (drop (Suc (current s)) (str s)) = cs'" using Cons by simp
      then have cs2: "drop (current ?s2) (str ?s2) = cs'"
        by (simp add: drop_Suc tl_drop)
      have "drop (current s) (str s) = ?c # d # cs'"
        using drop_current_Cons [OF assms(1)] Cons by simp
      then have pre2: "take (current ?s2 - start ?s2) (drop (start ?s2) (str ?s2)) = [?c, d]"
        using assms(2) by (simp add: numeral_2_eq_2)
      have num2: "addNumber ?s2 =
         (case lex_number [?c, d] cs' of
            Inl e \<Rightarrow> Inl e
          | Inr (t, n) \<Rightarrow>
              Inr (s\<lparr>current := current s + 1 + (n + 1), tokens := tokens s @ pushed t\<rparr>))"
        using addNumber_lex [OF c2, unfolded pre2 cs2] assms(2) by (simp split: sum.splits)
      show ?thesis
        unfolding scanToken_def adv sum.case prod.case lex_token_def g adv2 num2
        using True Cons
        by (simp add: push_back_def pushed_def split: sum.split prod.split)
    qed
  qed
qed

lemma scan_loop_lex:
  "current s \<le> length (str s) \<Longrightarrow>
   scan_loop s =
     (case lex (drop (current s) (str s)) of
        Inl e \<Rightarrow> Inl e
      | Inr ts \<Rightarrow> Inr (tokens s @ ts))"
proof (induction s rule: scan_loop.induct)
  case (1 s)
  show ?case
  proof (cases "isLast s")
    case True
    with 1(2) have "drop (current s) (str s) = []" by (simp add: isLast_def)
    with True show ?thesis by (subst scan_loop.simps) simp
  next
    case False
    let ?s0 = "s\<lparr>start := current s\<rparr>"
    let ?c = "str s ! current s"
    let ?cs = "drop (Suc (current s)) (str s)"
    from False have lt: "current s < length (str s)" by (simp add: isLast_def)
    then have dr: "drop (current s) (str s) = ?c # ?cs" by (rule drop_current_Cons)
    have st: "scanToken ?s0 =
       (case lex_token ?c ?cs of
          Inl e \<Rightarrow> Inl e
        | Inr (t, n) \<Rightarrow>
            Inr (?s0\<lparr>current := current s + 1 + n,
                   line := (if ?c = CHR 0x0A then line s + 1 else line s),
                   tokens := tokens s @ pushed t\<rparr>))"
      using scanToken_lex [of ?s0] lt by (simp split: sum.splits prod.splits)
    show ?thesis
    proof (cases "lex_token ?c ?cs")
      case (Inl e)
      with st False show ?thesis
        by (subst scan_loop.simps) (simp add: dr)
    next
      case (Inr p)
      obtain t n where p: "p = (t, n)" by (cases p)
      let ?s' = "?s0\<lparr>current := current s + 1 + n,
                   line := (if ?c = CHR 0x0A then line s + 1 else line s),
                   tokens := tokens s @ pushed t\<rparr>"
      from Inr p st have st': "scanToken ?s0 = Inr ?s'" by simp
      from lex_token_le [of ?c ?cs t n] Inr p lt
      have le': "current ?s' \<le> length (str ?s')" by simp
      have dr': "drop (current ?s') (str ?s') = drop n ?cs" by (simp add: add.commute)
      from 1(1) [OF False st' le']
      have ih: "scan_loop ?s' =
         (case lex (drop n ?cs) of
            Inl e \<Rightarrow> Inl e
          | Inr ts \<Rightarrow> Inr (tokens s @ pushed t @ ts))"
        unfolding dr' by (simp split: sum.splits)
      have "scan_loop s = scan_loop ?s'"
        using False st' by (subst scan_loop.simps) simp
      with ih Inr p show ?thesis
        by (simp add: dr pushed_def split: sum.splits option.splits)
    qed
  qed
qed

lemma scan_eq_lex: "scan input = lex input"
  using scan_loop_lex [of "Scanner_init input"]
  by (simp add: scan_def Scanner_init_def split: sum.splits)

lemma floor_rat_numeral:
  "\<lfloor>numeral a / numeral b :: rat\<rfloor> = numeral a div numeral b"
  using floor_divide_of_int_eq [of "numeral a" "numeral b", where ?'a = rat] by simp

lemmas lex_eval = lex_token_def lex_string_def lex_number_def lex_keyword_def
  isdigit_def isalpha_def stoi_def stod_def digits_value_def digit_val_def Let_def
  round_binary64_def floor_log_def log_floor.simps scale_def round_half_even_def
  floor_rat_numeral

lemma scan_bounded_enough:
  "length (str s) - current s \<le> n \<Longrightarrow> scan_bounded n s = Some (scan_loop s)"
proof (induction n arbitrary: s)
  case 0
  then have "isLast s" by (simp add: isLast_def)
  then show ?case
    by (subst scan_bounded.simps, subst scan_loop.simps) simp
next
  case (Suc n)
  show ?case
  proof (cases "isLast s")
    case True
    then show ?thesis
      by (subst scan_bounded.simps, subst scan_loop.simps) simp
  next
    case False
    show ?thesis
    proof (cases "scanToken (s\<lparr>start := current s\<rparr>)")
      case (Inl e)
      with False show ?thesis
        by (subst scan_bounded.simps, subst scan_loop.simps) simp
    next
      case (Inr s')
      from scanToken_advances [OF Inr] Suc.prems
      have "length (str s') - current s' \<le> n" by auto
      from Suc.IH [OF this] False Inr show ?thesis
        by (subst scan_bounded.simps, subst scan_loop.simps) simp
    qed
  qed
qed

text \<open>Rules that evaluate the scanner and the function of the text on a given input.\<close>

lemmas scan_eval = scanToken_def Scanner_advanceCurrent_def
  isLast_def Scanner_getCurrValue_def getNextValue_def push_back_def addString_def addString_loop.simps
  addNumber_def digits_loop.simps addKeyword_def alpha_loop.simps substr_def

section \<open>Facts about the scanner\<close>

lemma lex_token_not_eof:
  "lex_token c cs = Inr (Some t, n) \<Longrightarrow> token_type t \<noteq> EOF_TOKEN"
  by (auto simp: lex_token_def lex_string_def lex_number_def lex_keyword_def Let_def
           split: if_splits list.splits sum.splits)

lemma lex_ends_with_eof:
  "lex cs = Inr ts \<Longrightarrow>
   ts \<noteq> [] \<and> last ts = Token EOF_TOKEN Monostate
   \<and> (\<forall>t \<in> set (butlast ts). token_type t \<noteq> EOF_TOKEN)"
proof (induction cs arbitrary: ts rule: lex.induct)
  case 1
  then show ?case by auto
next
  case (2 c cs)
  from "2.prems" obtain t n ts' where
    tok: "lex_token c cs = Inr (t, n)" and rest: "lex (drop n cs) = Inr ts'"
    and ts: "ts = (case t of None \<Rightarrow> ts' | Some tok \<Rightarrow> tok # ts')"
    by (auto split: sum.splits)
  from "2.IH" [OF tok refl rest]
  have ih: "ts' \<noteq> []" "last ts' = Token EOF_TOKEN Monostate"
    "\<forall>t \<in> set (butlast ts'). token_type t \<noteq> EOF_TOKEN"
    by auto
  show ?case
  proof (cases t)
    case None
    with ts ih show ?thesis by simp
  next
    case (Some tk)
    with tok have "token_type tk \<noteq> EOF_TOKEN" by (auto dest: lex_token_not_eof)
    with Some ts ih show ?thesis by simp
  qed
qed

lemma takeWhile_until:
  "\<forall>x \<in> set xs. P x \<Longrightarrow> \<not> P y \<Longrightarrow> takeWhile P (xs @ y # ys) = xs"
  by (induction xs) auto

lemma takeWhile_all: "\<forall>x \<in> set xs. P x \<Longrightarrow> takeWhile P xs = xs"
  by (induction xs) auto

lemma lex_string_closed:
  assumes "CHR ''\"'' \<notin> set body"
  shows "lex_string (body @ CHR ''\"'' # rest)
           = Inr (Some (Token STRING (StringV body)), length body + 1)"
proof -
  from assms have "\<forall>x \<in> set body. x \<noteq> CHR ''\"''" by auto
  then have tw: "takeWhile (\<lambda>c. c \<noteq> CHR ''\"'') (body @ CHR ''\"'' # rest) = body"
    by (rule takeWhile_until) simp
  show ?thesis unfolding lex_string_def Let_def tw by simp
qed

lemma lex_string_open:
  assumes "CHR ''\"'' \<notin> set body"
  shows "lex_string body = Inl UnterminatedString"
proof -
  from assms have "\<forall>x \<in> set body. x \<noteq> CHR ''\"''" by auto
  then have tw: "takeWhile (\<lambda>c. c \<noteq> CHR ''\"'') body = body"
    by (rule takeWhile_all)
  show ?thesis unfolding lex_string_def Let_def tw by simp
qed

lemma isdigit_not_special:
  "isdigit c \<Longrightarrow>
     c \<noteq> CHR ''{'' \<and> c \<noteq> CHR ''}'' \<and> c \<noteq> CHR ''['' \<and> c \<noteq> CHR '']'' \<and> c \<noteq> CHR '',''
   \<and> c \<noteq> CHR '':'' \<and> c \<noteq> CHR 0x0A \<and> c \<noteq> CHR '' '' \<and> c \<noteq> CHR ''\"'' \<and> c \<noteq> CHR ''-''
   \<and> c \<noteq> CHR ''.''"
  by (auto simp: isdigit_def)

lemma lex_token_digit: "isdigit c \<Longrightarrow> lex_token c cs = lex_number [c] cs"
  using isdigit_not_special [of c] by (simp add: lex_token_def)

lemma lex_number_int:
  assumes "\<forall>c \<in> set ds. isdigit c"
  shows "lex_number pre ds =
     (case stoi (pre @ ds) of
        Inl e \<Rightarrow> Inl e
      | Inr i \<Rightarrow> Inr (Some (Token NUMBER (IntV i)), length ds))"
proof -
  have tw: "takeWhile isdigit ds = ds" using assms by (rule takeWhile_all)
  show ?thesis unfolding lex_number_def Let_def tw by simp
qed

lemma lex_number_float:
  assumes "\<forall>c \<in> set ds. isdigit c" "\<forall>c \<in> set fs. isdigit c" "fs \<noteq> []"
  shows "lex_number pre (ds @ CHR ''.'' # fs) =
     (case stod (pre @ ds @ ''.'' @ fs) of
        Inl e \<Rightarrow> Inl e
      | Inr d \<Rightarrow> Inr (Some (Token NUMBER (DoubleV d)), length ds + 1 + length fs))"
proof -
  have nd: "\<not> isdigit (CHR ''.'')" by (simp add: isdigit_def)
  have tw1: "takeWhile isdigit (ds @ CHR ''.'' # fs) = ds"
    using assms(1) nd by (rule takeWhile_until)
  have tw2: "takeWhile isdigit fs = fs" using assms(2) by (rule takeWhile_all)
  have hd: "isdigit (hd fs)" using assms(2,3) by (cases fs) auto
  have r: "drop (length ds) (ds @ CHR ''.'' # fs) = CHR ''.'' # fs" by simp
  show ?thesis unfolding lex_number_def Let_def tw1 r
    using assms(3) hd by (simp add: tw2 cong: sum.case_cong)
qed

lemma Parser_parse_number:
  "Parser_parse [Token NUMBER (IntV i), Token EOF_TOKEN Monostate] = (Inr (JInt i), 1)"
  "Parser_parse [Token NUMBER (DoubleV d), Token EOF_TOKEN Monostate] = (Inr (JDouble d), 1)"
  by (simp_all add: Parser_parse_def Parser_advanceCurrent_def eval_nat_numeral)

lemma lex_literal:
  assumes "lex_token c cs = Inr (Some tok, length cs)"
  shows "lex (c # cs) = Inr [tok, Token EOF_TOKEN Monostate]"
  using assms by simp

text \<open>Number literals.\<close>

lemma takeWhile_stop:
  "\<forall>x \<in> set xs. P x \<Longrightarrow> ys = [] \<or> \<not> P (hd ys) \<Longrightarrow> takeWhile P (xs @ ys) = xs"
  by (induction xs) (auto simp: takeWhile_eq_Nil_iff neq_Nil_conv)

lemma lex_number_int_in_context:
  assumes "\<forall>c \<in> set ds. isdigit c"
    and "rest = [] \<or> \<not> isdigit (hd rest)" and "rest = [] \<or> hd rest \<noteq> CHR ''.''"
  shows "lex_number pre (ds @ rest) =
     (case stoi (pre @ ds) of
        Inl e \<Rightarrow> Inl e
      | Inr i \<Rightarrow> Inr (Some (Token NUMBER (IntV i)), length ds))"
proof -
  have tw: "takeWhile isdigit (ds @ rest) = ds" using assms(1,2) by (rule takeWhile_stop)
  have r: "drop (length ds) (ds @ rest) = rest" by simp
  show ?thesis unfolding lex_number_def Let_def tw r
    using assms(3) by (auto split: sum.splits)
qed

lemma lex_number_float_in_context:
  assumes "\<forall>c \<in> set ds. isdigit c" "\<forall>c \<in> set fs. isdigit c" "fs \<noteq> []"
    and "rest = [] \<or> \<not> isdigit (hd rest)"
  shows "lex_number pre (ds @ CHR ''.'' # fs @ rest) =
     (case stod (pre @ ds @ ''.'' @ fs) of
        Inl e \<Rightarrow> Inl e
      | Inr d \<Rightarrow> Inr (Some (Token NUMBER (DoubleV d)), length ds + 1 + length fs))"
proof -
  have nd: "\<not> isdigit (CHR ''.'')" by (simp add: isdigit_def)
  have tw1: "takeWhile isdigit (ds @ CHR ''.'' # fs @ rest) = ds"
    using assms(1) nd by (rule takeWhile_until)
  have tw2: "takeWhile isdigit (fs @ rest) = fs" using assms(2,4) by (rule takeWhile_stop)
  have hd: "isdigit (hd (fs @ rest))" using assms(2,3) by (cases fs) auto
  have r: "drop (length ds) (ds @ CHR ''.'' # fs @ rest) = CHR ''.'' # fs @ rest" by simp
  show ?thesis unfolding lex_number_def Let_def tw1 r
    using assms(3) hd by (simp add: tw2 cong: sum.case_cong)
qed

lemma stoi_literal:
  assumes "sign = [] \<or> sign = ''-''" "ds \<noteq> []" "\<forall>c \<in> set ds. isdigit c"
  shows "stoi (sign @ ds) =
     (let v = (if sign = [] then int (digits_value ds) else - int (digits_value ds))
      in if - (2 ^ 31) \<le> v \<and> v < 2 ^ 31 then Inr (word_of_int v) else Inl OutOfRange)"
proof -
  from assms(2,3) have d: "isdigit (hd ds)" by (cases ds) auto
  then have nm: "hd ds \<noteq> CHR ''-''" by (auto simp: isdigit_def)
  have tw: "takeWhile isdigit ds = ds" using assms(3) by (rule takeWhile_all)
  from assms(1) show ?thesis
  proof
    assume "sign = []"
    with assms(2) nm show ?thesis by (simp add: stoi_def Let_def tw)
  next
    assume "sign = ''-''"
    with assms(2) show ?thesis by (simp add: stoi_def Let_def tw)
  qed
qed

lemma number_token:
  assumes sign: "sign = [] \<or> sign = ''-''" and ds: "ds \<noteq> []" "\<forall>c \<in> set ds. isdigit c"
  shows "\<exists>c pre' ds'. sign @ ds = c # pre' @ ds' \<and> (\<forall>x \<in> set ds'. isdigit x)
           \<and> (\<forall>cs. lex_token c (pre' @ cs) =
                 (case lex_number (c # pre') cs of
                    Inl e \<Rightarrow> Inl e
                  | Inr (t, n) \<Rightarrow> Inr (t, n + length pre')))"
proof -
  from ds obtain d ds' where dd: "ds = d # ds'" by (cases ds) auto
  with ds(2) have d: "isdigit d" and ds': "\<forall>x \<in> set ds'. isdigit x" by auto
  from sign show ?thesis
  proof
    assume s: "sign = []"
    have "\<forall>cs. lex_token d ([] @ cs) =
            (case lex_number (d # []) cs of Inl e \<Rightarrow> Inl e | Inr (t, n) \<Rightarrow> Inr (t, n + length ([] :: string)))"
      using d by (simp add: lex_token_digit split: sum.splits)
    with s dd ds' show ?thesis by (intro exI [of _ d] exI [of _ "[]"] exI [of _ ds']) simp
  next
    assume s: "sign = ''-''"
    have "\<forall>cs. lex_token (CHR ''-'') ([d] @ cs) =
            (case lex_number (CHR ''-'' # [d]) cs of
               Inl e \<Rightarrow> Inl e | Inr (t, n) \<Rightarrow> Inr (t, n + length [d]))"
      using d by (simp add: lex_token_def split: sum.splits)
    with s dd ds' show ?thesis
      by (intro exI [of _ "CHR ''-''"] exI [of _ "[d]"] exI [of _ ds']) simp
  qed
qed

lemma scan_number_literal:
  assumes sign: "sign = [] \<or> sign = ''-''" and ds: "ds \<noteq> []" "\<forall>c \<in> set ds. isdigit c"
    and cur: "current s = length pre"
    and st: "str s = pre @ sign @ ds @ tail"
    and num: "\<And>p ds'. \<forall>x \<in> set ds'. isdigit x \<Longrightarrow> p @ ds' = sign @ ds \<Longrightarrow>
                lex_number p (ds' @ tail) =
                  (case conv of Inl e \<Rightarrow> Inl e | Inr tok \<Rightarrow> Inr (Some tok, length ds' + k))"
  shows "scanToken (s\<lparr>start := current s\<rparr>) =
     (case conv of
        Inl e \<Rightarrow> Inl e
      | Inr tok \<Rightarrow>
          Inr (s\<lparr>start := length pre, current := length pre + length (sign @ ds) + k,
                 tokens := tokens s @ [tok]\<rparr>))"
proof -
  from number_token [OF sign ds] obtain c pre' ds' where
    split: "sign @ ds = c # pre' @ ds'" and ds': "\<forall>x \<in> set ds'. isdigit x"
    and tok: "\<And>cs. lex_token c (pre' @ cs) =
                 (case lex_number (c # pre') cs of
                    Inl e \<Rightarrow> Inl e
                  | Inr (t, n) \<Rightarrow> Inr (t, n + length pre'))"
    by blast
  let ?s0 = "s\<lparr>start := current s\<rparr>"
  have str: "str s = pre @ c # pre' @ ds' @ tail" using st split by simp
  have lt: "current ?s0 < length (str ?s0)" using cur str by simp
  have c: "str ?s0 ! current ?s0 = c" using cur str by simp
  have cs: "drop (Suc (current ?s0)) (str ?s0) = pre' @ ds' @ tail" using cur str by simp
  have nl: "c \<noteq> CHR 0x0A"
  proof -
    from sign ds split have "c = CHR ''-'' \<or> isdigit c"
      by (cases ds) (auto simp: Cons_eq_append_conv)
    then show ?thesis by (auto simp: isdigit_def)
  qed
  have len: "length (sign @ ds) = Suc (length pre' + length ds')"
    using arg_cong [OF split, of length] by simp
  have "lex_token c (pre' @ ds' @ tail) =
          (case conv of Inl e \<Rightarrow> Inl e | Inr tok \<Rightarrow> Inr (Some tok, length ds' + k + length pre'))"
    unfolding tok using num [OF ds', of "c # pre'"] split by (simp split: sum.splits)
  with scanToken_lex [OF lt, unfolded c cs] cur nl len
  show ?thesis
    by (simp add: pushed_def add.commute add.left_commute split: sum.splits)
qed

lemma lex_number_literal:
  assumes sign: "sign = [] \<or> sign = ''-''" and ds: "ds \<noteq> []" "\<forall>c \<in> set ds. isdigit c"
    and num: "\<And>p ds'. \<forall>x \<in> set ds'. isdigit x \<Longrightarrow> p @ ds' = sign @ ds \<Longrightarrow>
                lex_number p (ds' @ tail) =
                  (case conv of Inl e \<Rightarrow> Inl e | Inr tok \<Rightarrow> Inr (Some tok, length ds' + k))"
  shows "lex (sign @ ds @ tail) =
     (case conv of
        Inl e \<Rightarrow> Inl e
      | Inr tok \<Rightarrow> (case lex (drop k tail) of Inl e \<Rightarrow> Inl e | Inr ts \<Rightarrow> Inr (tok # ts)))"
proof -
  from number_token [OF sign ds] obtain c pre' ds' where
    split: "sign @ ds = c # pre' @ ds'" and ds': "\<forall>x \<in> set ds'. isdigit x"
    and tok: "\<And>cs. lex_token c (pre' @ cs) =
                 (case lex_number (c # pre') cs of
                    Inl e \<Rightarrow> Inl e
                  | Inr (t, n) \<Rightarrow> Inr (t, n + length pre'))"
    by blast
  have t: "lex_token c (pre' @ ds' @ tail) =
          (case conv of Inl e \<Rightarrow> Inl e | Inr tok \<Rightarrow> Inr (Some tok, length ds' + k + length pre'))"
    unfolding tok using num [OF ds', of "c # pre'"] split by (simp split: sum.splits)
  have "sign @ ds @ tail = c # pre' @ ds' @ tail" using split by simp
  then have "lex (sign @ ds @ tail) = lex (c # pre' @ ds' @ tail)" by (simp only:)
  also have "\<dots> = (case conv of
        Inl e \<Rightarrow> Inl e
      | Inr tok \<Rightarrow> (case lex (drop k tail) of Inl e \<Rightarrow> Inl e | Inr ts \<Rightarrow> Inr (tok # ts)))"
    unfolding lex.simps t by (simp add: add.commute add.left_commute split: sum.splits)
  finally show ?thesis .
qed

lemma digits_value_snoc: "digits_value (xs @ [c]) = 10 * digits_value xs + digit_val c"
  by (simp add: digits_value_def)

lemma digits_value_zeros:
  "digits_value (xs @ replicate n (CHR ''0'')) = digits_value xs * 10 ^ n"
proof (induction n)
  case 0
  show ?case by simp
next
  case (Suc n)
  have "xs @ replicate (Suc n) (CHR ''0'') = (xs @ replicate n (CHR ''0'')) @ [CHR ''0'']"
    by (simp add: replicate_append_same)
  then have "digits_value (xs @ replicate (Suc n) (CHR ''0''))
               = 10 * digits_value (xs @ replicate n (CHR ''0'')) + digit_val (CHR ''0'')"
    by (simp only: digits_value_snoc)
  with Suc show ?case by (simp add: digit_val_def)
qed

lemma digits_value_leading_zeros:
  "digits_value (replicate n (CHR ''0'') @ xs) = digits_value xs"
proof -
  have "foldl (\<lambda>acc c. 10 * acc + digit_val c) 0 (replicate n (CHR ''0'')) = 0"
    by (induction n) (simp_all add: digit_val_def)
  then show ?thesis by (simp add: digits_value_def)
qed

lemma stod_literal:
  assumes "sign = [] \<or> sign = ''-''" "ds \<noteq> []" "\<forall>c \<in> set ds. isdigit c"
    and "\<forall>c \<in> set fs. isdigit c"
  shows "stod (sign @ ds @ ''.'' @ fs) =
     (case round_binary64 (of_nat (digits_value ds) + of_nat (digits_value fs) / 10 ^ length fs) of
        Inl e \<Rightarrow> Inl e
      | Inr x \<Rightarrow> Inr (Double (sign \<noteq> []) x))"
proof -
  from assms(2,3) have d: "isdigit (hd ds)" by (cases ds) auto
  then have nm: "hd ds \<noteq> CHR ''-''" by (auto simp: isdigit_def)
  have nd: "\<not> isdigit (CHR ''.'')" by (simp add: isdigit_def)
  have tw: "takeWhile isdigit (ds @ CHR ''.'' # fs) = ds"
    using assms(3) nd by (rule takeWhile_until)
  have tw2: "takeWhile isdigit fs = fs" using assms(4) by (rule takeWhile_all)
  have stod_pos: "stod (ds @ CHR ''.'' # fs) =
     (case round_binary64 (of_nat (digits_value ds) + of_nat (digits_value fs) / 10 ^ length fs) of
        Inl e \<Rightarrow> Inl e
      | Inr x \<Rightarrow> Inr (Double False x))"
    using assms(2) nm by (simp add: stod_def Let_def tw tw2 cong: sum.case_cong)
  have stod_neg: "stod (CHR ''-'' # ds @ CHR ''.'' # fs) =
     (case round_binary64 (of_nat (digits_value ds) + of_nat (digits_value fs) / 10 ^ length fs) of
        Inl e \<Rightarrow> Inl e
      | Inr x \<Rightarrow> Inr (Double True x))"
    using assms(2) by (simp add: stod_def Let_def tw tw2 cong: sum.case_cong)
  from assms(1) stod_pos stod_neg show ?thesis by (auto split: sum.splits)
qed

lemma log_floor_ge:
  "2 \<le> b \<Longrightarrow> b ^ k \<le> n \<Longrightarrow> k \<le> log_floor b n"
proof (induction k arbitrary: n)
  case 0
  show ?case by simp
next
  case (Suc k)
  from Suc.prems have pos: "0 < b" by simp
  have "1 \<le> b ^ k" using Suc.prems(1) by simp
  then have "b * 1 \<le> b * b ^ k" using pos by (intro mult_left_mono) auto
  with Suc.prems(2) have bn: "b \<le> n" by simp
  from Suc.prems(2) have "b ^ k * b \<le> n" by (simp add: mult.commute)
  then have "(b ^ k * b) div b \<le> n div b" using pos by (rule zdiv_mono1)
  then have "b ^ k \<le> n div b" using pos by simp
  from Suc.IH [OF Suc.prems(1) this] Suc.prems(1) bn show ?case
    by (subst log_floor.simps) simp
qed

lemma round_binary64_overflow:
  assumes "2 ^ 1024 \<le> m"
  shows "round_binary64 m = Inl OutOfRange"
proof -
  have "(1::rat) \<le> 2 ^ 1024" by simp
  from this assms have m1: "1 \<le> m" by (rule order_trans)
  then have m0: "m \<noteq> 0" by auto
  have "of_int (2 ^ 1024) \<le> m" using assms by simp
  then have "(2::int) ^ 1024 \<le> \<lfloor>m\<rfloor>" by (simp only: le_floor_iff)
  then have "1024 \<le> log_floor 2 \<lfloor>m\<rfloor>" by (intro log_floor_ge) simp_all
  with m1 have e: "1024 \<le> floor_log 2 m" by (simp add: floor_log_def)
  then have "\<not> floor_log 2 m < - 1022" "1023 < floor_log 2 m" by simp_all
  with m0 show ?thesis by (simp add: round_binary64_def Let_def)
qed

lemma round_binary64_underflow:
  assumes "0 < m" and "m * 2 ^ 1075 < 1"
  shows "round_binary64 m = Inl OutOfRange"
proof -
  have p: "(0::rat) < 2 ^ 1075" by simp
  from assms(2) p have inv: "2 ^ 1075 < 1 / m"
    using assms(1) by (simp add: pos_less_divide_eq mult.commute)
  have "m * 1 \<le> m * 2 ^ 1075" using assms(1) by (intro mult_left_mono) simp_all
  with assms(2) have m1: "\<not> 1 \<le> m" by simp
  have "of_int (2 ^ 1075) \<le> 1 / m" using inv by simp
  then have "(2::int) ^ 1075 \<le> \<lfloor>1 / m\<rfloor>" by (simp only: le_floor_iff)
  then have l: "1075 \<le> log_floor 2 \<lfloor>1 / m\<rfloor>" by (intro log_floor_ge) simp_all
  with m1 have e: "floor_log 2 m \<le> - 1075" by (simp add: floor_log_def Let_def)
  have s: "scale 2 m 1074 = m * 2 ^ 1074" by (simp add: scale_def)
  have "m * 2 ^ 1074 * 2 < 1" using assms(2) by simp
  then have half: "m * 2 ^ 1074 < 1 / 2" by simp
  have pos: "0 < m * 2 ^ 1074" using assms(1) by simp
  then have fl: "\<lfloor>m * 2 ^ 1074\<rfloor> = 0" using half by (simp add: floor_eq_iff)
  have r: "round_half_even (m * 2 ^ 1074) = 0"
    using half by (simp add: round_half_even_def Let_def fl)
  from e have e': "floor_log 2 m < - 1022" "floor_log 2 m \<noteq> - 1023" by simp_all
  from assms(1) have m0: "m \<noteq> 0" by simp
  show ?thesis
    unfolding round_binary64_def Let_def s r
    using m0 e' pos by simp
qed

lemma stod_overflow:
  "stod (CHR ''1'' # replicate 309 (CHR ''0'') @ ''.0'') = Inl OutOfRange"
proof -
  let ?ds = "CHR ''1'' # replicate 309 (CHR ''0'')"
  have dig: "\<forall>x \<in> set ?ds. isdigit x" by (auto simp: isdigit_def)
  have "digits_value ([CHR ''1''] @ replicate 309 (CHR ''0'')) = digits_value [CHR ''1''] * 10 ^ 309"
    by (rule digits_value_zeros)
  then have v: "digits_value ?ds = 10 ^ 309" by (simp add: digits_value_def digit_val_def)
  have f: "digits_value ''0'' = 0" by (simp add: digits_value_def digit_val_def)
  have "2 ^ 1024 \<le> (of_nat (digits_value ?ds) + of_nat (digits_value ''0'') / 10 ^ length ''0'' :: rat)"
    unfolding v f by simp
  then have r: "round_binary64 (of_nat (digits_value ?ds)
                  + of_nat (digits_value ''0'') / 10 ^ length ''0'') = Inl OutOfRange"
    by (rule round_binary64_overflow)
  have "stod ([] @ ?ds @ ''.'' @ ''0'') = Inl OutOfRange"
    by (subst stod_literal) (use dig in \<open>simp_all only: r sum.case\<close>, simp_all add: isdigit_def)
  then show ?thesis by simp
qed

lemma stod_underflow:
  "stod (''0.'' @ replicate 400 (CHR ''0'') @ ''1'') = Inl OutOfRange"
proof -
  let ?fs = "replicate 400 (CHR ''0'') @ ''1''"
  have dig: "\<forall>x \<in> set ?fs. isdigit x" by (auto simp: isdigit_def)
  have v: "digits_value ?fs = 1"
    by (simp only: digits_value_leading_zeros) (simp add: digits_value_def digit_val_def)
  have f: "digits_value ''0'' = 0" by (simp add: digits_value_def digit_val_def)
  have len: "length ?fs = 401" by simp
  let ?m = "of_nat (digits_value ''0'') + of_nat (digits_value ?fs) / 10 ^ length ?fs :: rat"
  have "0 < ?m" "?m * 2 ^ 1075 < 1" unfolding v f len by simp_all
  then have r: "round_binary64 ?m = Inl OutOfRange" by (rule round_binary64_underflow)
  have "stod ([] @ ''0'' @ ''.'' @ ?fs) = Inl OutOfRange"
    by (subst stod_literal) (use dig in \<open>simp_all only: r sum.case\<close>, simp_all add: isdigit_def)
  then show ?thesis by simp
qed

lemma scan_int_literal:
  assumes "sign = [] \<or> sign = ''-''" "ds \<noteq> []" "\<forall>c \<in> set ds. isdigit c"
    and "current s = length pre" and "str s = pre @ sign @ ds @ rest"
    and "rest = [] \<or> \<not> isdigit (hd rest)" and "rest = [] \<or> hd rest \<noteq> CHR ''.''"
  shows "scanToken (s\<lparr>start := current s\<rparr>) =
          (case stoi (sign @ ds) of
             Inl e \<Rightarrow> Inl e
           | Inr i \<Rightarrow>
               Inr (s\<lparr>start := length pre, current := length pre + length (sign @ ds),
                      tokens := tokens s @ [Token NUMBER (IntV i)]\<rparr>))"
proof -
  let ?ci = "map_sum id (\<lambda>i. Token NUMBER (IntV i)) (stoi (sign @ ds))"
  have num_i: "lex_number p (ds' @ rest) =
      (case ?ci of Inl e \<Rightarrow> Inl e | Inr tok \<Rightarrow> Inr (Some tok, length ds' + 0))"
    if "\<forall>x \<in> set ds'. isdigit x" "p @ ds' = sign @ ds" for p ds'
    using lex_number_int_in_context [OF that(1) assms(6,7), of p] that(2)
    by (simp split: sum.splits)
  from scan_number_literal [where conv = ?ci and k = 0, OF assms(1,2,3,4,5)] num_i
  show ?thesis by (simp split: sum.splits)
qed

lemma float_literal_number:
  assumes "\<forall>c \<in> set fs. isdigit c" "fs \<noteq> []" "rest = [] \<or> \<not> isdigit (hd rest)"
    and "\<forall>x \<in> set ds'. isdigit x" "p @ ds' = sign @ ds"
  shows "lex_number p (ds' @ ''.'' @ fs @ rest) =
      (case map_sum id (\<lambda>d. Token NUMBER (DoubleV d)) (stod (sign @ ds @ ''.'' @ fs)) of
         Inl e \<Rightarrow> Inl e
       | Inr tok \<Rightarrow> Inr (Some tok, length ds' + (1 + length fs)))"
proof -
  from assms(5) have "(p @ ds') @ ''.'' @ fs = (sign @ ds) @ ''.'' @ fs" by (simp only:)
  then have eq: "p @ ds' @ ''.'' @ fs = sign @ ds @ ''.'' @ fs" by simp
  from lex_number_float_in_context [OF assms(4,1,2,3), of p]
  show ?thesis unfolding eq by (simp split: sum.splits)
qed

lemma scan_float_literal:
  assumes "sign = [] \<or> sign = ''-''" "ds \<noteq> []" "\<forall>c \<in> set ds. isdigit c"
    and "fs \<noteq> []" "\<forall>c \<in> set fs. isdigit c"
    and "current s = length pre" and "str s = pre @ sign @ ds @ ''.'' @ fs @ rest"
    and "rest = [] \<or> \<not> isdigit (hd rest)"
  shows "scanToken (s\<lparr>start := current s\<rparr>) =
          (case stod (sign @ ds @ ''.'' @ fs) of
             Inl e \<Rightarrow> Inl e
           | Inr d \<Rightarrow>
               Inr (s\<lparr>start := length pre,
                      current := length pre + length (sign @ ds @ ''.'' @ fs),
                      tokens := tokens s @ [Token NUMBER (DoubleV d)]\<rparr>))"
  using scan_number_literal
          [where conv = "map_sum id (\<lambda>d. Token NUMBER (DoubleV d)) (stod (sign @ ds @ ''.'' @ fs))"
             and k = "1 + length fs", OF assms(1,2,3,6,7)]
        float_literal_number [OF assms(5,4,8)]
  by (simp split: sum.splits)

lemma parse_int_literal:
  assumes "sign = [] \<or> sign = ''-''" "ds \<noteq> []" "\<forall>c \<in> set ds. isdigit c"
  shows "parse (sign @ ds) =
           (case stoi (sign @ ds) of Inl e \<Rightarrow> Inl e | Inr i \<Rightarrow> Inr (JInt i))"
proof -
  let ?ci = "map_sum id (\<lambda>i. Token NUMBER (IntV i)) (stoi (sign @ ds))"
  have num_i: "lex_number p (ds' @ []) =
      (case ?ci of Inl e \<Rightarrow> Inl e | Inr tok \<Rightarrow> Inr (Some tok, length ds' + 0))"
    if "\<forall>x \<in> set ds'. isdigit x" "p @ ds' = sign @ ds" for p ds'
    using lex_number_int_in_context [OF that(1), of "[]" p] that(2)
    by (simp split: sum.splits)
  have lex_i: "lex (sign @ ds) =
      (case stoi (sign @ ds) of
         Inl e \<Rightarrow> Inl e
       | Inr i \<Rightarrow> Inr [Token NUMBER (IntV i), Token EOF_TOKEN Monostate])"
    using lex_number_literal [where tail = "[]" and conv = ?ci and k = 0, OF assms] num_i
    by (simp split: sum.splits)
  show ?thesis
    unfolding parse_def scan_eq_lex lex_i
    by (simp add: Parser_parse_number split: sum.splits)
qed

lemma parse_float_literal:
  assumes "sign = [] \<or> sign = ''-''" "ds \<noteq> []" "\<forall>c \<in> set ds. isdigit c"
    and "fs \<noteq> []" "\<forall>c \<in> set fs. isdigit c"
  shows "parse (sign @ ds @ ''.'' @ fs) =
           (case stod (sign @ ds @ ''.'' @ fs) of Inl e \<Rightarrow> Inl e | Inr d \<Rightarrow> Inr (JDouble d))"
proof -
  let ?cf = "map_sum id (\<lambda>d. Token NUMBER (DoubleV d)) (stod (sign @ ds @ ''.'' @ fs))"
  have lex_f: "lex (sign @ ds @ ''.'' @ fs) =
      (case stod (sign @ ds @ ''.'' @ fs) of
         Inl e \<Rightarrow> Inl e
       | Inr d \<Rightarrow> Inr [Token NUMBER (DoubleV d), Token EOF_TOKEN Monostate])"
    using lex_number_literal [where tail = "''.'' @ fs" and conv = ?cf and k = "1 + length fs",
        OF assms(1,2,3)]
      float_literal_number [OF assms(5,4), of "[]"]
    by (simp split: sum.splits)
  show ?thesis
    unfolding parse_def scan_eq_lex lex_f
    by (simp add: Parser_parse_number split: sum.splits)
qed

lemma number_examples:
  "parse ''3'' = Inr (JInt 3)"
  "parse ''3.0'' = Inr (JDouble (Double False 3))"
  "parse ''3.5'' = Inr (JDouble (Double False (7 / 2)))"
  "parse ''-3'' = Inr (JInt (- 3))"
  by (simp_all add: parse_def scan_eq_lex lex_eval Parser_parse_number)

section \<open>Facts about the parser\<close>

text \<open>The cursor never moves backwards.\<close>

lemma advance_cases:
  "Parser_advanceCurrent ts cur = (r, c) \<Longrightarrow>
     (cur < length ts \<and> r = Inr (ts ! cur) \<and> c = cur + 1)
   \<or> (length ts \<le> cur \<and> r = Inl OutOfBounds \<and> c = cur)"
  by (auto simp: Parser_advanceCurrent_def split: if_splits)

lemma consume_cases:
  "consume ts tt err cur = (r, c) \<Longrightarrow>
     (cur < length ts \<and> token_type (ts ! cur) = tt \<and> r = Inr () \<and> c = cur + 1)
   \<or> (cur < length ts \<and> token_type (ts ! cur) \<noteq> tt \<and> r = Inl err \<and> c = cur)
   \<or> (length ts \<le> cur \<and> r = Inl OutOfBounds \<and> c = cur)"
  by (auto simp: consume_def Parser_getCurrValue_def split: if_splits)

lemma consume_until_comma_cases:
  "consume_until_comma ts exc cur = (r, c) \<Longrightarrow>
     (cur < length ts \<and> token_type (ts ! cur) = COMMA \<and> r = Inr () \<and> c = cur + 1)
   \<or> (cur < length ts \<and> token_type (ts ! cur) \<noteq> COMMA \<and> token_type (ts ! cur) = exc
        \<and> r = Inr () \<and> c = cur)
   \<or> (cur < length ts \<and> token_type (ts ! cur) \<noteq> COMMA \<and> token_type (ts ! cur) \<noteq> exc
        \<and> r = Inl MissingComma \<and> c = cur)
   \<or> (length ts \<le> cur \<and> r = Inl OutOfBounds \<and> c = cur)"
  by (auto simp: consume_until_comma_def Parser_getCurrValue_def split: if_splits)

lemma cursor_mono:
  "(parse_from_token n ts tok cur = (r1, c1) \<longrightarrow> cur \<le> c1)
 \<and> (parse_object_loop n ts obj tok cur = (r2, c2) \<longrightarrow> cur \<le> c2)
 \<and> (parse_array_loop n ts arr tok cur = (r3, c3) \<longrightarrow> cur \<le> c3)"
proof (induction n arbitrary: tok cur obj arr r1 c1 r2 c2 r3 c3)
  case 0
  show ?case by simp
next
  case (Suc n)
  have v: "cur \<le> c" if "parse_from_token n ts tok cur = (r, c)" for tok cur r c
    using Suc that by blast
  have ol: "cur \<le> c" if "parse_object_loop n ts obj tok cur = (r, c)" for tok cur obj r c
    using Suc that by blast
  have al: "cur \<le> c" if "parse_array_loop n ts arr tok cur = (r, c)" for tok cur arr r c
    using Suc that by blast
  have 1: "cur \<le> c1" if "parse_from_token (Suc n) ts tok cur = (r1, c1)"
    using that
    by (auto split: TokenType.splits TokenValue.splits prod.splits sum.splits
             dest!: advance_cases dest: ol al)
  have 2: "cur \<le> c2" if "parse_object_loop (Suc n) ts obj tok cur = (r2, c2)"
    using that
    by (auto split: if_splits prod.splits sum.splits
             dest!: advance_cases consume_cases consume_until_comma_cases dest: v ol)
       (fastforce dest: v ol)+
  have 3: "cur \<le> c3" if "parse_array_loop (Suc n) ts arr tok cur = (r3, c3)"
    using that
    by (auto split: if_splits prod.splits sum.splits
             dest!: advance_cases consume_until_comma_cases dest: v al)
       (fastforce dest: v al)+
  from 1 2 3 show ?case by blast
qed

text \<open>A call that does not run out of fuel gives the same result with more fuel.\<close>

lemmas parser_Suc = parse_from_token.simps(2) parse_object_loop.simps(2) parse_array_loop.simps(2)

declare parser_Suc [simp del]

lemma fuel_step:
  "(fst (parse_from_token n ts tok cur) \<noteq> Inl OutOfFuel \<longrightarrow>
      parse_from_token (Suc n) ts tok cur = parse_from_token n ts tok cur)
 \<and> (fst (parse_object_loop n ts obj tok cur) \<noteq> Inl OutOfFuel \<longrightarrow>
      parse_object_loop (Suc n) ts obj tok cur = parse_object_loop n ts obj tok cur)
 \<and> (fst (parse_array_loop n ts arr tok cur) \<noteq> Inl OutOfFuel \<longrightarrow>
      parse_array_loop (Suc n) ts arr tok cur = parse_array_loop n ts arr tok cur)"
proof (induction n arbitrary: tok cur obj arr)
  case 0
  show ?case by simp
next
  case (Suc n)
  have v: "parse_from_token (Suc n) ts tok cur = parse_from_token n ts tok cur"
    if "fst (parse_from_token n ts tok cur) \<noteq> Inl OutOfFuel" for tok cur
    using Suc that by blast
  have ol: "parse_object_loop (Suc n) ts obj tok cur = parse_object_loop n ts obj tok cur"
    if "fst (parse_object_loop n ts obj tok cur) \<noteq> Inl OutOfFuel" for tok cur obj
    using Suc that by blast
  have al: "parse_array_loop (Suc n) ts arr tok cur = parse_array_loop n ts arr tok cur"
    if "fst (parse_array_loop n ts arr tok cur) \<noteq> Inl OutOfFuel" for tok cur arr
    using Suc that by blast
  have 1: "parse_from_token (Suc (Suc n)) ts tok cur = parse_from_token (Suc n) ts tok cur"
    if "fst (parse_from_token (Suc n) ts tok cur) \<noteq> Inl OutOfFuel"
    using that
    unfolding parse_from_token.simps(2) [of "Suc n" ts tok cur]
      parse_from_token.simps(2) [of n ts tok cur]
    by (auto split: TokenType.split_asm TokenValue.split_asm prod.split_asm sum.split_asm
             simp: ol al)
  have 2: "parse_object_loop (Suc (Suc n)) ts obj tok cur = parse_object_loop (Suc n) ts obj tok cur"
    if "fst (parse_object_loop (Suc n) ts obj tok cur) \<noteq> Inl OutOfFuel"
    using that
    unfolding parse_object_loop.simps(2) [of "Suc n" ts obj tok cur]
      parse_object_loop.simps(2) [of n ts obj tok cur]
    by (auto split: if_split_asm prod.split_asm sum.split_asm simp: v ol)
  have 3: "parse_array_loop (Suc (Suc n)) ts arr tok cur = parse_array_loop (Suc n) ts arr tok cur"
    if "fst (parse_array_loop (Suc n) ts arr tok cur) \<noteq> Inl OutOfFuel"
    using that
    unfolding parse_array_loop.simps(2) [of "Suc n" ts arr tok cur]
      parse_array_loop.simps(2) [of n ts arr tok cur]
    by (auto split: if_split_asm prod.split_asm sum.split_asm simp: v al)
  from 1 2 3 show ?case by blast
qed

lemma fuel_mono_value:
  "n \<le> m \<Longrightarrow> fst (parse_from_token n ts tok cur) \<noteq> Inl OutOfFuel \<Longrightarrow>
   parse_from_token m ts tok cur = parse_from_token n ts tok cur"
proof (induction m)
  case 0
  then show ?case by simp
next
  case (Suc m)
  show ?case
  proof (cases "n = Suc m")
    case True
    then show ?thesis by simp
  next
    case False
    with Suc.prems have "n \<le> m" by simp
    from Suc.IH [OF this Suc.prems(2)] Suc.prems(2) fuel_step [of m ts tok cur]
    show ?thesis by simp
  qed
qed

text \<open>Two units of fuel for each token that is left are enough.\<close>

lemma fuel_enough:
  "(2 * (length ts - cur) + 1 \<le> n \<longrightarrow> fst (parse_from_token n ts tok cur) \<noteq> Inl OutOfFuel)
 \<and> (2 * (length ts - cur) + 2 \<le> n \<longrightarrow> fst (parse_object_loop n ts obj tok cur) \<noteq> Inl OutOfFuel)
 \<and> (2 * (length ts - cur) + 2 \<le> n \<longrightarrow> fst (parse_array_loop n ts arr tok cur) \<noteq> Inl OutOfFuel)"
proof (induction n arbitrary: tok cur obj arr)
  case 0
  show ?case by simp
next
  case (Suc n)
  have v: "fst (parse_from_token n ts tok cur) \<noteq> Inl OutOfFuel"
    if "2 * (length ts - cur) + 1 \<le> n" for tok cur
    using Suc that by blast
  have ol: "fst (parse_object_loop n ts obj tok cur) \<noteq> Inl OutOfFuel"
    if "2 * (length ts - cur) + 2 \<le> n" for tok cur obj
    using Suc that by blast
  have al: "fst (parse_array_loop n ts arr tok cur) \<noteq> Inl OutOfFuel"
    if "2 * (length ts - cur) + 2 \<le> n" for tok cur arr
    using Suc that by blast
  have v': "parse_from_token n ts tok cur \<noteq> (Inl OutOfFuel, c)"
    if "2 * (length ts - cur) + 1 \<le> n" for tok cur c
    using v [OF that, of tok] by auto
  have ol': "parse_object_loop n ts obj tok cur \<noteq> (Inl OutOfFuel, c)"
    if "2 * (length ts - cur) + 2 \<le> n" for tok cur obj c
    using ol [OF that, of obj tok] by auto
  have al': "parse_array_loop n ts arr tok cur \<noteq> (Inl OutOfFuel, c)"
    if "2 * (length ts - cur) + 2 \<le> n" for tok cur arr c
    using al [OF that, of arr tok] by auto
  have cm: "cur \<le> c" if "parse_from_token n ts tok cur = (r, c)" for tok cur r c
    using cursor_mono [of n ts tok cur r c] that by blast
  have 1: "fst (parse_from_token (Suc n) ts tok cur) \<noteq> Inl OutOfFuel"
    if b: "2 * (length ts - cur) + 1 \<le> Suc n"
  proof
    assume "fst (parse_from_token (Suc n) ts tok cur) = Inl OutOfFuel"
    then show False
      unfolding parse_from_token.simps(2) [of n ts tok cur]
      using b
      by (auto split: TokenType.split_asm TokenValue.split_asm prod.split_asm sum.split_asm
               dest!: advance_cases simp: ol al ol' al')
  qed
  have 2: "fst (parse_object_loop (Suc n) ts obj tok cur) \<noteq> Inl OutOfFuel"
    if b: "2 * (length ts - cur) + 2 \<le> Suc n"
  proof
    assume "fst (parse_object_loop (Suc n) ts obj tok cur) = Inl OutOfFuel"
    then show False
      unfolding parse_object_loop.simps(2) [of n ts obj tok cur]
      using b
      by (auto split: if_split_asm prod.split_asm sum.split_asm TokenValue.split_asm
               dest!: advance_cases consume_cases consume_until_comma_cases
               simp: get_string_def v v')
         (frule cm, simp add: ol ol')+
  qed
  have 3: "fst (parse_array_loop (Suc n) ts arr tok cur) \<noteq> Inl OutOfFuel"
    if b: "2 * (length ts - cur) + 2 \<le> Suc n"
  proof
    assume "fst (parse_array_loop (Suc n) ts arr tok cur) = Inl OutOfFuel"
    then show False
      unfolding parse_array_loop.simps(2) [of n ts arr tok cur]
      using b
      by (auto split: if_split_asm prod.split_asm sum.split_asm
               dest!: advance_cases consume_until_comma_cases
               simp: v v')
         (frule cm, simp add: al al')+
  qed
  from 1 2 3 show ?case by blast
qed

text \<open>
  On a token sequence that ends with EOF no access is out of bounds: a call entered with
  the token read last, not EOF then, finds the cursor within the sequence.
\<close>

lemma not_eof_lt:
  assumes "ts \<noteq> []" "token_type (last ts) = EOF_TOKEN"
    and "i < length ts" "token_type (ts ! i) \<noteq> EOF_TOKEN"
  shows "Suc i < length ts"
proof (rule ccontr)
  assume "\<not> Suc i < length ts"
  with assms(3) have "i = length ts - 1" by simp
  with assms(1,2,4) show False by (simp add: last_conv_nth)
qed

lemma in_bounds:
  assumes ne: "ts \<noteq> []" and eof: "token_type (last ts) = EOF_TOKEN"
  shows
  "(Suc i \<le> length ts \<and> parse_from_token n ts (ts ! i) (Suc i) = (r1, c1) \<longrightarrow>
      r1 \<noteq> Inl OutOfBounds \<and> c1 \<le> length ts \<and> (\<forall>v. r1 = Inr v \<longrightarrow> c1 < length ts))
 \<and> (Suc i \<le> length ts \<and> parse_object_loop n ts obj (ts ! i) (Suc i) = (r2, c2) \<longrightarrow>
      r2 \<noteq> Inl OutOfBounds \<and> c2 \<le> length ts \<and> (\<forall>v. r2 = Inr v \<longrightarrow> c2 < length ts))
 \<and> (Suc i \<le> length ts \<and> parse_array_loop n ts arr (ts ! i) (Suc i) = (r3, c3) \<longrightarrow>
      r3 \<noteq> Inl OutOfBounds \<and> c3 \<le> length ts \<and> (\<forall>v. r3 = Inr v \<longrightarrow> c3 < length ts))"
proof (induction n arbitrary: i obj arr r1 c1 r2 c2 r3 c3)
  case 0
  show ?case by auto
next
  case (Suc n)
  note lt = not_eof_lt [OF ne eof]
  have v: "r \<noteq> Inl OutOfBounds \<and> c \<le> length ts \<and> (\<forall>v. r = Inr v \<longrightarrow> c < length ts)"
    if "parse_from_token n ts (ts ! i) (Suc i) = (r, c)" "i < length ts" for i r c
    using Suc [of i r c] that by auto
  have ol: "r \<noteq> Inl OutOfBounds \<and> c \<le> length ts \<and> (\<forall>v. r = Inr v \<longrightarrow> c < length ts)"
    if "parse_object_loop n ts obj (ts ! i) (Suc i) = (r, c)" "i < length ts" for i obj r c
    using Suc [of i _ _ obj r c] that by auto
  have al: "r \<noteq> Inl OutOfBounds \<and> c \<le> length ts \<and> (\<forall>v. r = Inr v \<longrightarrow> c < length ts)"
    if "parse_array_loop n ts arr (ts ! i) (Suc i) = (r, c)" "i < length ts" for i arr r c
    using Suc [of i _ _ _ _ _ arr r c] that by auto
  have v1: "i < length ts \<Longrightarrow> parse_from_token n ts (ts ! i) (Suc i) \<noteq> (Inl OutOfBounds, c)" for i c
    using v [of i "Inl OutOfBounds" c] by auto
  have v2: "parse_from_token n ts (ts ! i) (Suc i) = (Inl e, c) \<Longrightarrow> i < length ts \<Longrightarrow> c \<le> length ts" for i e c
    using v [of i "Inl e" c] by auto
  have v3: "parse_from_token n ts (ts ! i) (Suc i) = (Inr x, c) \<Longrightarrow> i < length ts \<Longrightarrow> c < length ts" for i x c
    using v [of i "Inr x" c] by auto
  have ol1: "i < length ts \<Longrightarrow> parse_object_loop n ts obj (ts ! i) (Suc i) \<noteq> (Inl OutOfBounds, c)" for i obj c
    using ol [of obj i "Inl OutOfBounds" c] by auto
  have ol2: "parse_object_loop n ts obj (ts ! i) (Suc i) = (Inl e, c) \<Longrightarrow> i < length ts \<Longrightarrow> c \<le> length ts" for i obj e c
    using ol [of obj i "Inl e" c] by auto
  have ol3: "parse_object_loop n ts obj (ts ! i) (Suc i) = (Inr x, c) \<Longrightarrow> i < length ts \<Longrightarrow> c < length ts" for i obj x c
    using ol [of obj i "Inr x" c] by auto
  have al1: "i < length ts \<Longrightarrow> parse_array_loop n ts arr (ts ! i) (Suc i) \<noteq> (Inl OutOfBounds, c)" for i arr c
    using al [of arr i "Inl OutOfBounds" c] by auto
  have al2: "parse_array_loop n ts arr (ts ! i) (Suc i) = (Inl e, c) \<Longrightarrow> i < length ts \<Longrightarrow> c \<le> length ts" for i arr e c
    using al [of arr i "Inl e" c] by auto
  have lt1: "i < length ts \<Longrightarrow> token_type (ts ! i) = COLON \<Longrightarrow> (length ts \<le> Suc i) = False"
       "i < length ts \<Longrightarrow> token_type (ts ! i) = COMMA \<Longrightarrow> (length ts \<le> Suc i) = False"
       "i < length ts \<Longrightarrow> token_type (ts ! i) = COLON \<Longrightarrow> (Suc i < length ts) = True"
       "i < length ts \<Longrightarrow> token_type (ts ! i) = COMMA \<Longrightarrow> (Suc i < length ts) = True" for i
    using lt [of i] by auto
  have al3: "parse_array_loop n ts arr (ts ! i) (Suc i) = (Inr x, c) \<Longrightarrow> i < length ts \<Longrightarrow> c < length ts" for i arr x c
    using al [of arr i "Inr x" c] by auto
  have v4: "parse_from_token n ts (ts ! i) (Suc i) = (Inr x, c) \<Longrightarrow> i < length ts \<Longrightarrow> c \<le> length ts" for i x c
    using v3 [of i x c] by auto
  have ol4: "parse_object_loop n ts obj (ts ! i) (Suc i) = (Inr x, c) \<Longrightarrow> i < length ts \<Longrightarrow> c \<le> length ts" for i obj x c
    using ol3 [of obj i x c] by auto
  have al4: "parse_array_loop n ts arr (ts ! i) (Suc i) = (Inr x, c) \<Longrightarrow> i < length ts \<Longrightarrow> c \<le> length ts" for i arr x c
    using al3 [of arr i x c] by auto
  have olg: "parse_object_loop n ts obj (ts ! i) (Suc i) = (r, c) \<Longrightarrow> i < length ts \<Longrightarrow> c \<le> length ts" for i obj r c
    using ol [of obj i r c] by auto
  have alg: "parse_array_loop n ts arr (ts ! i) (Suc i) = (r, c) \<Longrightarrow> i < length ts \<Longrightarrow> c \<le> length ts" for i arr r c
    using al [of arr i r c] by auto
  have 1: "r1 \<noteq> Inl OutOfBounds \<and> c1 \<le> length ts \<and> (\<forall>v. r1 = Inr v \<longrightarrow> c1 < length ts)"
    if "Suc i \<le> length ts" "parse_from_token (Suc n) ts (ts ! i) (Suc i) = (r1, c1)"
    using that lt [of i]
    unfolding parse_from_token.simps(2) [of n ts "ts ! i" "Suc i"]
    by (auto split: TokenType.split_asm TokenValue.split_asm prod.split_asm sum.split_asm
             dest!: advance_cases simp: ol1 al1 dest: ol2 ol3 ol4 al2 al3 al4)
  have 2: "r2 \<noteq> Inl OutOfBounds \<and> c2 \<le> length ts \<and> (\<forall>v. r2 = Inr v \<longrightarrow> c2 < length ts)"
    if "Suc i \<le> length ts" "parse_object_loop (Suc n) ts obj (ts ! i) (Suc i) = (r2, c2)"
    using that lt [of i]
    unfolding parse_object_loop.simps(2) [of n ts obj "ts ! i" "Suc i"]
    by (auto split: if_split_asm prod.split_asm sum.split_asm TokenValue.split_asm
             dest!: advance_cases consume_cases consume_until_comma_cases
             simp: get_string_def v1 ol1 lt1 dest: v2 v3 v4 ol2 ol3 ol4)
       (fastforce dest: v3 olg)+
  have 3: "r3 \<noteq> Inl OutOfBounds \<and> c3 \<le> length ts \<and> (\<forall>v. r3 = Inr v \<longrightarrow> c3 < length ts)"
    if "Suc i \<le> length ts" "parse_array_loop (Suc n) ts arr (ts ! i) (Suc i) = (r3, c3)"
    using that lt [of i]
    unfolding parse_array_loop.simps(2) [of n ts arr "ts ! i" "Suc i"]
    by (auto split: if_split_asm prod.split_asm sum.split_asm
             dest!: advance_cases consume_until_comma_cases
             simp: v1 al1 lt1 dest: v2 v3 v4 al2 al3 al4)
       (fastforce dest: v3 alg)+
  from 1 2 3 show ?case by blast
qed

text \<open>What a successful call has done.\<close>

lemma value_success:
  assumes "parse_from_token (Suc n) ts tok cur = (Inr v, c)"
  obtains
    (scalar) "c = cur" "token_type tok \<in> {STRING, NUMBER, BOOLEAN, NULL_VALUE}"
      "\<And>ts'. parse_from_token (Suc n) ts' tok cur = (Inr v, c)"
      "\<forall>obj. v \<noteq> JObject obj" "\<forall>arr. v \<noteq> JArray arr"
  | (object) obj where "token_type tok = LEFT_CURLY" "cur < length ts"
      "parse_object_loop n ts [] (ts ! cur) (Suc cur) = (Inr obj, c)" "v = JObject obj"
  | (array) arr where "token_type tok = LEFT_SQUARE" "cur < length ts"
      "parse_array_loop n ts [] (ts ! cur) (Suc cur) = (Inr arr, c)" "v = JArray arr"
  using assms unfolding parse_from_token.simps(2) [of n ts tok cur]
  by (auto split: TokenType.split_asm TokenValue.split_asm prod.split_asm sum.split_asm
           dest!: advance_cases simp: parse_from_token.simps(2))

lemma object_loop_success:
  assumes "parse_object_loop (Suc n) ts obj key cur = (Inr obj', c)"
  obtains
    (finished) "token_type key = RIGHT_CURLY" "obj' = obj" "c = cur"
  | (step) v c3 k c4 where "token_type key = STRING"
      "Suc cur < length ts" "token_type (ts ! cur) = COLON"
      "parse_from_token n ts (ts ! Suc cur) (Suc (Suc cur)) = (Inr v, c3)"
      "get_string (token_value key) = Inr k"
      "c3 < length ts"
      "(token_type (ts ! c3) = COMMA \<and> c4 = Suc c3)
       \<or> (token_type (ts ! c3) = RIGHT_CURLY \<and> c4 = c3)"
      "c4 < length ts"
      "parse_object_loop n ts (map_assign obj k v) (ts ! c4) (Suc c4) = (Inr obj', c)"
  using assms unfolding parse_object_loop.simps(2) [of n ts obj key cur]
  by (auto split: if_split_asm prod.split_asm sum.split_asm
           dest!: advance_cases consume_cases consume_until_comma_cases)

lemma array_loop_success:
  assumes "parse_array_loop (Suc n) ts arr tok cur = (Inr arr', c)"
  obtains
    (finished) "token_type tok = RIGHT_SQUARE" "arr' = arr" "c = cur"
  | (step) v c1 c2 where "token_type tok \<noteq> RIGHT_SQUARE" "token_type tok \<noteq> EOF_TOKEN"
      "parse_from_token n ts tok cur = (Inr v, c1)"
      "c1 < length ts"
      "(token_type (ts ! c1) = COMMA \<and> c2 = Suc c1)
       \<or> (token_type (ts ! c1) = RIGHT_SQUARE \<and> c2 = c1)"
      "c2 < length ts"
      "parse_array_loop n ts (arr @ [v]) (ts ! c2) (Suc c2) = (Inr arr', c)"
  using assms unfolding parse_array_loop.simps(2) [of n ts arr tok cur]
  by (auto split: if_split_asm prod.split_asm sum.split_asm
           dest!: advance_cases consume_until_comma_cases)

text \<open>The steps of the loops, forwards.\<close>

lemma advance_in: "cur < length ts \<Longrightarrow> Parser_advanceCurrent ts cur = (Inr (ts ! cur), Suc cur)"
  by (simp add: Parser_advanceCurrent_def)

lemma consume_in:
  "cur < length ts \<Longrightarrow> token_type (ts ! cur) = tt \<Longrightarrow> consume ts tt err cur = (Inr (), Suc cur)"
  by (simp add: consume_def Parser_getCurrValue_def)

lemma consume_until_comma_in:
  "cur < length ts \<Longrightarrow> token_type (ts ! cur) = COMMA \<Longrightarrow>
     consume_until_comma ts exc cur = (Inr (), Suc cur)"
  "cur < length ts \<Longrightarrow> token_type (ts ! cur) \<noteq> COMMA \<Longrightarrow> token_type (ts ! cur) = exc \<Longrightarrow>
     consume_until_comma ts exc cur = (Inr (), cur)"
  by (simp_all add: consume_until_comma_def Parser_getCurrValue_def)

lemma object_loop_done:
  "token_type key = RIGHT_CURLY \<Longrightarrow> parse_object_loop (Suc n) ts obj key cur = (Inr obj, cur)"
  by (simp add: parse_object_loop.simps(2))

lemma object_loop_step:
  assumes "token_type key = STRING" "get_string (token_value key) = Inr k"
    and "Suc cur < length ts" "token_type (ts ! cur) = COLON"
    and "parse_from_token n ts (ts ! Suc cur) (Suc (Suc cur)) = (Inr v, c3)"
    and "c3 < length ts"
    and "(token_type (ts ! c3) = COMMA \<and> c4 = Suc c3)
         \<or> (token_type (ts ! c3) = RIGHT_CURLY \<and> c4 = c3)"
    and "c4 < length ts"
  shows "parse_object_loop (Suc n) ts obj key cur
           = parse_object_loop n ts (map_assign obj k v) (ts ! c4) (Suc c4)"
proof -
  have cuc: "consume_until_comma ts RIGHT_CURLY c3 = (Inr (), c4)"
    using assms(6,7) by (auto simp: consume_until_comma_in)
  show ?thesis
    unfolding parse_object_loop.simps(2) [of n ts obj key cur]
    using assms cuc by (simp add: consume_in advance_in)
qed

lemma array_loop_done:
  "token_type tok = RIGHT_SQUARE \<Longrightarrow> parse_array_loop (Suc n) ts arr tok cur = (Inr arr, cur)"
  by (simp add: parse_array_loop.simps(2))

lemma array_loop_step:
  assumes "token_type tok \<noteq> RIGHT_SQUARE" "token_type tok \<noteq> EOF_TOKEN"
    and "parse_from_token n ts tok cur = (Inr v, c1)"
    and "c1 < length ts"
    and "(token_type (ts ! c1) = COMMA \<and> c2 = Suc c1)
         \<or> (token_type (ts ! c1) = RIGHT_SQUARE \<and> c2 = c1)"
    and "c2 < length ts"
  shows "parse_array_loop (Suc n) ts arr tok cur
           = parse_array_loop n ts (arr @ [v]) (ts ! c2) (Suc c2)"
proof -
  have cuc: "consume_until_comma ts RIGHT_SQUARE c1 = (Inr (), c2)"
    using assms(4,5) by (auto simp: consume_until_comma_in)
  show ?thesis
    unfolding parse_array_loop.simps(2) [of n ts arr tok cur]
    using assms cuc by (simp add: advance_in)
qed

lemma value_object:
  "token_type tok = LEFT_CURLY \<Longrightarrow> cur < length ts \<Longrightarrow>
   parse_object_loop n ts [] (ts ! cur) (Suc cur) = (Inr obj, c) \<Longrightarrow>
   parse_from_token (Suc n) ts tok cur = (Inr (JObject obj), c)"
  by (simp add: parse_from_token.simps(2) advance_in)

lemma value_array:
  "token_type tok = LEFT_SQUARE \<Longrightarrow> cur < length ts \<Longrightarrow>
   parse_array_loop n ts [] (ts ! cur) (Suc cur) = (Inr arr, c) \<Longrightarrow>
   parse_from_token (Suc n) ts tok cur = (Inr (JArray arr), c)"
  by (simp add: parse_from_token.simps(2) advance_in)

text \<open>A successful call depends on the tokens before its final cursor only.\<close>

lemma same_upto:
  assumes "take c ts' = take c ts" "p < c" "p < length ts"
  shows "p < length ts'" "ts' ! p = ts ! p"
proof -
  from assms(1) have "length (take c ts') = length (take c ts)" by simp
  with assms(2,3) show "p < length ts'" by simp
  from assms(2) have "ts' ! p = take c ts' ! p" by simp
  also have "\<dots> = take c ts ! p" by (simp add: assms(1))
  also have "\<dots> = ts ! p" using assms(2) by simp
  finally show "ts' ! p = ts ! p" .
qed

lemma take_le:
  assumes "take c ts' = take c ts" "c' \<le> c"
  shows "take c' ts' = take c' ts"
proof -
  have "take c' ts' = take c' (take c ts')" using assms(2) by (simp add: min_def)
  also have "\<dots> = take c' (take c ts)" by (simp add: assms(1))
  also have "\<dots> = take c' ts" using assms(2) by (simp add: min_def)
  finally show ?thesis .
qed

lemmas value_mono = cursor_mono [THEN conjunct1, rule_format]
lemmas object_loop_mono = cursor_mono [THEN conjunct2, THEN conjunct1, rule_format]
lemmas array_loop_mono = cursor_mono [THEN conjunct2, THEN conjunct2, rule_format]

lemma prefix_indep:
  "(\<forall>tok cur v c. parse_from_token n ts tok cur = (Inr v, c) \<longrightarrow> take c ts' = take c ts \<longrightarrow>
      parse_from_token n ts' tok cur = (Inr v, c))
 \<and> (\<forall>obj key cur obj' c. parse_object_loop n ts obj key cur = (Inr obj', c) \<longrightarrow>
      take c ts' = take c ts \<longrightarrow> parse_object_loop n ts' obj key cur = (Inr obj', c))
 \<and> (\<forall>arr tok cur arr' c. parse_array_loop n ts arr tok cur = (Inr arr', c) \<longrightarrow>
      take c ts' = take c ts \<longrightarrow> parse_array_loop n ts' arr tok cur = (Inr arr', c))"
proof (induction n)
  case 0
  show ?case by simp
next
  case (Suc n)
  have 1: "parse_from_token (Suc n) ts' tok cur = (Inr v, c)"
    if h: "parse_from_token (Suc n) ts tok cur = (Inr v, c)" and eq: "take c ts' = take c ts"
    for tok cur v c
    using h
  proof (cases rule: value_success)
    case scalar
    then show ?thesis by blast
  next
    case (object obj)
    from object_loop_mono [OF object(3)] have "cur < c" by simp
    from same_upto [OF eq this object(2)] object(3) Suc eq
    have "parse_object_loop n ts' [] (ts' ! cur) (Suc cur) = (Inr obj, c)" "cur < length ts'"
      by auto
    with object(1,4) show ?thesis by (simp add: value_object)
  next
    case (array arr)
    from array_loop_mono [OF array(3)] have "cur < c" by simp
    from same_upto [OF eq this array(2)] array(3) Suc eq
    have "parse_array_loop n ts' [] (ts' ! cur) (Suc cur) = (Inr arr, c)" "cur < length ts'"
      by auto
    with array(1,4) show ?thesis by (simp add: value_array)
  qed
  have 2: "parse_object_loop (Suc n) ts' obj key cur = (Inr obj', c)"
    if h: "parse_object_loop (Suc n) ts obj key cur = (Inr obj', c)"
      and eq: "take c ts' = take c ts"
    for obj key cur obj' c
    using h
  proof (cases rule: object_loop_success)
    case finished
    then show ?thesis by (simp add: object_loop_done)
  next
    case (step v c3 k c4)
    from object_loop_mono [OF step(9)] have c4: "c4 < c" by simp
    from step(7) have c34: "c3 \<le> c4" by auto
    from value_mono [OF step(4)] have c3: "Suc (Suc cur) \<le> c3" .
    have p0: "cur < c" "cur < length ts" using c3 c34 c4 step(2) by auto
    have p1: "Suc cur < c" using c3 c34 c4 by auto
    have p3: "c3 < c" using c34 c4 by auto
    note s0 = same_upto [OF eq p0]
    note s1 = same_upto [OF eq p1 step(2)]
    note s3 = same_upto [OF eq p3 step(6)]
    note s4 = same_upto [OF eq c4 step(8)]
    from take_le [OF eq] p3 have "take c3 ts' = take c3 ts" by simp
    with Suc step(4) have v': "parse_from_token n ts' (ts ! Suc cur) (Suc (Suc cur)) = (Inr v, c3)"
      by blast
    from Suc step(9) eq
    have l': "parse_object_loop n ts' (map_assign obj k v) (ts ! c4) (Suc c4) = (Inr obj', c)"
      by blast
    have "parse_object_loop (Suc n) ts' obj key cur
           = parse_object_loop n ts' (map_assign obj k v) (ts' ! c4) (Suc c4)"
      by (rule object_loop_step [where ?c3.0 = c3])
         (use step s0 s1 s3 s4 v' in auto)
    with l' s4 show ?thesis by simp
  qed
  have 3: "parse_array_loop (Suc n) ts' arr tok cur = (Inr arr', c)"
    if h: "parse_array_loop (Suc n) ts arr tok cur = (Inr arr', c)"
      and eq: "take c ts' = take c ts"
    for arr tok cur arr' c
    using h
  proof (cases rule: array_loop_success)
    case finished
    then show ?thesis by (simp add: array_loop_done)
  next
    case (step v c1 c2)
    from array_loop_mono [OF step(7)] have c2: "c2 < c" by simp
    from step(5) have c12: "c1 \<le> c2" by auto
    have p1: "c1 < c" using c12 c2 by auto
    note s1 = same_upto [OF eq p1 step(4)]
    note s2 = same_upto [OF eq c2 step(6)]
    from take_le [OF eq] p1 have "take c1 ts' = take c1 ts" by simp
    with Suc step(3) have v': "parse_from_token n ts' tok cur = (Inr v, c1)"
      by blast
    from Suc step(7) eq
    have l': "parse_array_loop n ts' (arr @ [v]) (ts ! c2) (Suc c2) = (Inr arr', c)"
      by blast
    have "parse_array_loop (Suc n) ts' arr tok cur
           = parse_array_loop n ts' (arr @ [v]) (ts' ! c2) (Suc c2)"
      by (rule array_loop_step [where ?c1.0 = c1])
         (use step s1 s2 v' in auto)
    with l' s2 show ?thesis by simp
  qed
  from 1 2 3 show ?case by blast
qed

text \<open>Evaluation of the parser on a given token sequence.\<close>

lemmas parser_eval = Parser_parse_def Parser_advanceCurrent_def Parser_getCurrValue_def
  consume_def consume_until_comma_def get_string_def parser_Suc eval_nat_numeral

lemma Parser_parse_value:
  "ts \<noteq> [] \<Longrightarrow> Parser_parse ts = parse_from_token (2 * length ts) ts (ts ! 0) 1"
  by (simp add: Parser_parse_def Parser_advanceCurrent_def)

lemma top_fuel:
  assumes "ts \<noteq> []"
  shows "fst (parse_from_token (2 * length ts) ts tok 1) \<noteq> Inl OutOfFuel"
proof -
  from assms have "2 * (length ts - 1) + 1 \<le> 2 * length ts" by (cases ts) simp_all
  with fuel_enough [of ts 1 "2 * length ts" tok] show ?thesis by blast
qed

text \<open>The exceptions of the scanner.\<close>

definition lexical_error :: "error \<Rightarrow> bool" where
  "lexical_error e \<longleftrightarrow>
     e \<in> {MinusNotFollowedByNumber, UnexpectedToken, UnterminatedString, ExpectedDigitAfterDot,
          StoiInvalidArgument, OutOfRange}"

lemma stoi_errors: "stoi s = Inl e \<Longrightarrow> lexical_error e"
  by (auto simp: stoi_def Let_def lexical_error_def split: if_splits)

lemma round_binary64_errors: "round_binary64 m = Inl e \<Longrightarrow> e = OutOfRange"
  by (auto simp: round_binary64_def Let_def split: if_splits)

lemma stod_errors: "stod s = Inl e \<Longrightarrow> lexical_error e"
  unfolding stod_def Let_def
  by (auto simp: lexical_error_def split: if_splits sum.splits dest: round_binary64_errors)

lemma lex_number_errors: "lex_number pre cs = Inl e \<Longrightarrow> lexical_error e"
  unfolding lex_number_def Let_def
  by (auto split: if_splits sum.splits dest: stoi_errors stod_errors simp: lexical_error_def)

lemma lex_token_errors: "lex_token c cs = Inl e \<Longrightarrow> lexical_error e"
  unfolding lex_token_def
  by (auto simp: lex_string_def lex_keyword_def Let_def lexical_error_def
           split: if_splits list.splits sum.splits dest: lex_number_errors)

lemma lex_errors: "lex cs = Inl e \<Longrightarrow> lexical_error e"
proof (induction cs rule: lex.induct)
  case 1
  then show ?case by simp
next
  case (2 c cs)
  show ?case
  proof (cases "lex_token c cs")
    case (Inl e')
    with "2.prems" have "e' = e" by simp
    with Inl show ?thesis by (auto dest: lex_token_errors)
  next
    case (Inr p)
    obtain t n where p: "p = (t, n)" by (cases p)
    with Inr "2.prems" have "lex (drop n cs) = Inl e" by (auto split: sum.splits)
    from "2.IH" [OF Inr [unfolded p] refl this] show ?thesis .
  qed
qed

lemma parse_never_out_of_bounds: "parse input \<noteq> Inl OutOfBounds \<and> parse input \<noteq> Inl OutOfFuel"
proof (cases "scan input")
  case (Inl e)
  then have "lex input = Inl e" by (simp add: scan_eq_lex)
  from lex_errors [OF this] Inl show ?thesis by (auto simp: parse_def lexical_error_def)
next
  case (Inr ts)
  then have "lex input = Inr ts" by (simp add: scan_eq_lex)
  from lex_ends_with_eof [OF this] have ne: "ts \<noteq> []" and eof: "token_type (last ts) = EOF_TOKEN"
    by auto
  obtain r c where rc: "parse_from_token (2 * length ts) ts (ts ! 0) (Suc 0) = (r, c)"
    by (cases "parse_from_token (2 * length ts) ts (ts ! 0) (Suc 0)")
  from ne have "Suc 0 \<le> length ts" by (cases ts) auto
  with in_bounds [OF ne eof, of 0 "2 * length ts" r c] rc have "r \<noteq> Inl OutOfBounds" by blast
  moreover from top_fuel [OF ne, of "ts ! 0"] rc have "r \<noteq> Inl OutOfFuel" by simp
  ultimately show ?thesis using Inr rc ne by (simp add: parse_def Parser_parse_value)
qed

text \<open>Single turns of the loops of \<open>parse_array\<close> and \<open>parse_object\<close>.\<close>

lemma value_eof:
  "token_type tok = EOF_TOKEN \<Longrightarrow> parse_from_token (Suc n) ts tok cur = (Inl UnexpectedToken, cur)"
  by (simp add: parse_from_token.simps(2))

lemma consume_until_comma_missing:
  "cur < length ts \<Longrightarrow> token_type (ts ! cur) \<noteq> COMMA \<Longrightarrow> token_type (ts ! cur) \<noteq> exc \<Longrightarrow>
     consume_until_comma ts exc cur = (Inl MissingComma, cur)"
  by (simp add: consume_until_comma_def Parser_getCurrValue_def)

lemma consume_wrong:
  "cur < length ts \<Longrightarrow> token_type (ts ! cur) \<noteq> tt \<Longrightarrow> consume ts tt err cur = (Inl err, cur)"
  by (simp add: consume_def Parser_getCurrValue_def)

lemma array_trailing_comma:
  assumes "token_type tok \<noteq> RIGHT_SQUARE" "token_type tok \<noteq> EOF_TOKEN"
    and "parse_from_token (Suc n) ts tok cur = (Inr v, c)"
    and "Suc c < length ts" "token_type (ts ! c) = COMMA" "token_type (ts ! Suc c) = RIGHT_SQUARE"
  shows "parse_array_loop (Suc (Suc n)) ts arr tok cur = (Inr (arr @ [v]), Suc (Suc c))"
proof -
  have "parse_array_loop (Suc (Suc n)) ts arr tok cur
          = parse_array_loop (Suc n) ts (arr @ [v]) (ts ! Suc c) (Suc (Suc c))"
    by (rule array_loop_step [where ?c1.0 = c]) (use assms in auto)
  with assms(6) show ?thesis by (simp add: array_loop_done)
qed

lemma object_trailing_comma:
  assumes "token_type key = STRING" "get_string (token_value key) = Inr k"
    and "Suc cur < length ts" "token_type (ts ! cur) = COLON"
    and "parse_from_token (Suc n) ts (ts ! Suc cur) (Suc (Suc cur)) = (Inr v, c)"
    and "Suc c < length ts" "token_type (ts ! c) = COMMA" "token_type (ts ! Suc c) = RIGHT_CURLY"
  shows "parse_object_loop (Suc (Suc n)) ts obj key cur = (Inr (map_assign obj k v), Suc (Suc c))"
proof -
  have "parse_object_loop (Suc (Suc n)) ts obj key cur
          = parse_object_loop (Suc n) ts (map_assign obj k v) (ts ! Suc c) (Suc (Suc c))"
    by (rule object_loop_step [where ?c3.0 = c]) (use assms in auto)
  with assms(8) show ?thesis by (simp add: object_loop_done)
qed

lemma array_eof_after_element:
  assumes "token_type tok \<noteq> RIGHT_SQUARE" "token_type tok \<noteq> EOF_TOKEN"
    and "parse_from_token n ts tok cur = (Inr v, c)"
    and "c < length ts" "token_type (ts ! c) = EOF_TOKEN"
  shows "parse_array_loop (Suc n) ts arr tok cur = (Inl MissingComma, c)"
  unfolding parse_array_loop.simps(2) [of n ts arr tok cur]
  using assms by (simp add: consume_until_comma_missing)

lemma object_eof_after_pair:
  assumes "token_type key = STRING" "get_string (token_value key) = Inr k"
    and "Suc cur < length ts" "token_type (ts ! cur) = COLON"
    and "parse_from_token n ts (ts ! Suc cur) (Suc (Suc cur)) = (Inr v, c)"
    and "c < length ts" "token_type (ts ! c) = EOF_TOKEN"
  shows "parse_object_loop (Suc n) ts obj key cur = (Inl MissingComma, c)"
  unfolding parse_object_loop.simps(2) [of n ts obj key cur]
  using assms by (simp add: consume_until_comma_missing consume_in advance_in)

lemma object_eof_after_key:
  assumes "token_type key = STRING" "cur < length ts" "token_type (ts ! cur) = EOF_TOKEN"
  shows "parse_object_loop (Suc n) ts obj key cur = (Inl ExpectedColon, cur)"
  unfolding parse_object_loop.simps(2) [of n ts obj key cur]
  using assms by (simp add: consume_wrong)

lemma object_eof_after_colon:
  assumes "token_type key = STRING" "Suc cur < length ts" "token_type (ts ! cur) = COLON"
    and "token_type (ts ! Suc cur) = EOF_TOKEN"
  shows "parse_object_loop (Suc (Suc n)) ts obj key cur = (Inl UnexpectedToken, Suc (Suc cur))"
  unfolding parse_object_loop.simps(2) [of "Suc n" ts obj key cur]
  using assms by (simp add: consume_in advance_in value_eof)

lemma array_eof_at_element:
  "token_type tok = EOF_TOKEN \<Longrightarrow>
   parse_array_loop (Suc n) ts arr tok cur = (Inl UnterminatedArray, cur)"
  by (simp add: parse_array_loop.simps(2))

lemma object_eof_at_key:
  "token_type key = EOF_TOKEN \<Longrightarrow>
   parse_object_loop (Suc n) ts obj key cur = (Inl UnterminatedObject, cur)"
  by (simp add: parse_object_loop.simps(2))

text \<open>Evaluation of \<open>parse\<close> on a text: the tokens first, then the parser.\<close>

lemma parse_eval:
  "lex input = Inr ts \<Longrightarrow> Parser_parse ts = (r, c) \<Longrightarrow> parse input = r"
  by (simp add: parse_def scan_eq_lex)

lemma trailing_comma_examples:
  "parse ''[1,2,]'' = Inr (JArray [JInt 1, JInt 2])"
  "parse ''[1,2]'' = Inr (JArray [JInt 1, JInt 2])"
  "parse ''{\"a\":1,}'' = Inr (JObject [(''a'', JInt 1)])"
  "parse ''{\"a\":1}'' = Inr (JObject [(''a'', JInt 1)])"
proof -
  show "parse ''[1,2,]'' = Inr (JArray [JInt 1, JInt 2])"
    by (rule parse_eval [where ts = "[Token LEFT_SQUARE (StringV ''[''), Token NUMBER (IntV 1),
          Token COMMA (StringV '',''), Token NUMBER (IntV 2), Token COMMA (StringV '',''),
          Token RIGHT_SQUARE (StringV '']''), Token EOF_TOKEN Monostate]" and c = 6])
       (simp_all add: lex_eval, simp add: parser_eval)
  show "parse ''[1,2]'' = Inr (JArray [JInt 1, JInt 2])"
    by (rule parse_eval [where ts = "[Token LEFT_SQUARE (StringV ''[''), Token NUMBER (IntV 1),
          Token COMMA (StringV '',''), Token NUMBER (IntV 2),
          Token RIGHT_SQUARE (StringV '']''), Token EOF_TOKEN Monostate]" and c = 5])
       (simp_all add: lex_eval, simp add: parser_eval)
  show "parse ''{\"a\":1,}'' = Inr (JObject [(''a'', JInt 1)])"
    by (rule parse_eval [where ts = "[Token LEFT_CURLY (StringV ''{''), Token STRING (StringV ''a''),
          Token COLON (StringV '':''), Token NUMBER (IntV 1), Token COMMA (StringV '',''),
          Token RIGHT_CURLY (StringV ''}''), Token EOF_TOKEN Monostate]" and c = 6])
       (simp_all add: lex_eval, simp add: parser_eval)
  show "parse ''{\"a\":1}'' = Inr (JObject [(''a'', JInt 1)])"
    by (rule parse_eval [where ts = "[Token LEFT_CURLY (StringV ''{''), Token STRING (StringV ''a''),
          Token COLON (StringV '':''), Token NUMBER (IntV 1),
          Token RIGHT_CURLY (StringV ''}''), Token EOF_TOKEN Monostate]" and c = 5])
       (simp_all add: lex_eval, simp add: parser_eval)
qed

text \<open>The end of the input at each place of an array and of an object.\<close>

lemma eof_examples:
  "parse ''['' = Inl UnterminatedArray"
  "parse ''[1,'' = Inl UnterminatedArray"
  "parse ''[1'' = Inl MissingComma"
  "parse ''{'' = Inl UnterminatedObject"
  "parse ''{\"a\":1,'' = Inl UnterminatedObject"
  "parse ''{\"a\"'' = Inl ExpectedColon"
  "parse ''{\"a\":'' = Inl UnexpectedToken"
  "parse ''{\"a\":1'' = Inl MissingComma"
proof -
  show "parse ''['' = Inl UnterminatedArray"
    by (rule parse_eval [where ts = "[Token LEFT_SQUARE (StringV ''[''),
          Token EOF_TOKEN Monostate]" and c = 2])
       (simp_all add: lex_eval, simp add: parser_eval)
  show "parse ''[1,'' = Inl UnterminatedArray"
    by (rule parse_eval [where ts = "[Token LEFT_SQUARE (StringV ''[''), Token NUMBER (IntV 1),
          Token COMMA (StringV '',''), Token EOF_TOKEN Monostate]" and c = 4])
       (simp_all add: lex_eval, simp add: parser_eval)
  show "parse ''[1'' = Inl MissingComma"
    by (rule parse_eval [where ts = "[Token LEFT_SQUARE (StringV ''[''), Token NUMBER (IntV 1),
          Token EOF_TOKEN Monostate]" and c = 2])
       (simp_all add: lex_eval, simp add: parser_eval)
  show "parse ''{'' = Inl UnterminatedObject"
    by (rule parse_eval [where ts = "[Token LEFT_CURLY (StringV ''{''),
          Token EOF_TOKEN Monostate]" and c = 2])
       (simp_all add: lex_eval, simp add: parser_eval)
  show "parse ''{\"a\":1,'' = Inl UnterminatedObject"
    by (rule parse_eval [where ts = "[Token LEFT_CURLY (StringV ''{''), Token STRING (StringV ''a''),
          Token COLON (StringV '':''), Token NUMBER (IntV 1), Token COMMA (StringV '',''),
          Token EOF_TOKEN Monostate]" and c = 6])
       (simp_all add: lex_eval, simp add: parser_eval)
  show "parse ''{\"a\"'' = Inl ExpectedColon"
    by (rule parse_eval [where ts = "[Token LEFT_CURLY (StringV ''{''), Token STRING (StringV ''a''),
          Token EOF_TOKEN Monostate]" and c = 2])
       (simp_all add: lex_eval, simp add: parser_eval)
  show "parse ''{\"a\":'' = Inl UnexpectedToken"
    by (rule parse_eval [where ts = "[Token LEFT_CURLY (StringV ''{''), Token STRING (StringV ''a''),
          Token COLON (StringV '':''), Token EOF_TOKEN Monostate]" and c = 4])
       (simp_all add: lex_eval, simp add: parser_eval)
  show "parse ''{\"a\":1'' = Inl MissingComma"
    by (rule parse_eval [where ts = "[Token LEFT_CURLY (StringV ''{''), Token STRING (StringV ''a''),
          Token COLON (StringV '':''), Token NUMBER (IntV 1), Token EOF_TOKEN Monostate]" and c = 4])
       (simp_all add: lex_eval, simp add: parser_eval)
qed

lemma open_array:
  "token_type tok = LEFT_SQUARE \<Longrightarrow> cur < length ts \<Longrightarrow>
   parse_from_token (Suc n) ts tok cur =
     (case parse_array_loop n ts [] (ts ! cur) (Suc cur) of
        (Inl e, c) \<Rightarrow> (Inl e, c) | (Inr arr, c) \<Rightarrow> (Inr (JArray arr), c))"
  by (simp add: parse_from_token.simps(2) Parser_advanceCurrent_def)

lemma open_object:
  "token_type tok = LEFT_CURLY \<Longrightarrow> cur < length ts \<Longrightarrow>
   parse_from_token (Suc n) ts tok cur =
     (case parse_object_loop n ts [] (ts ! cur) (Suc cur) of
        (Inl e, c) \<Rightarrow> (Inl e, c) | (Inr obj, c) \<Rightarrow> (Inr (JObject obj), c))"
  by (simp add: parse_from_token.simps(2) Parser_advanceCurrent_def)

lemma cursor_examples:
  "scan '''' = Inr [Token EOF_TOKEN Monostate]"
  "Parser_parse [Token EOF_TOKEN Monostate] = (Inl UnexpectedToken, 1)"
  "scan ''['' = Inr [Token LEFT_SQUARE (StringV ''[''), Token EOF_TOKEN Monostate]"
  "Parser_parse [Token LEFT_SQUARE (StringV ''[''), Token EOF_TOKEN Monostate]
     = (Inl UnterminatedArray, 2)"
  by (simp_all add: scan_eq_lex lex_eval parser_eval)


section \<open>Claims\<close>

subsection \<open>C9: scan terminates\<close>

text \<open>
  C9. \<open>scan\<close> is total and terminating for every finite input: it returns a token
  sequence or fails with a lexical error and never loops. Each turn of the loop of \<open>scan\<close>
  that does not throw moves the cursor strictly forward, never beyond the end of the text
  and without changing the text; so the loop makes at most as many turns as the input has
  characters: run with that bound it returns what \<open>scan\<close> returns.
\<close>

theorem scan_terminates:
  assumes "\<not> isLast s" and "scanToken (s\<lparr>start := current s\<rparr>) = Inr s'"
  shows "current s < current s' \<and> current s' \<le> length (str s) \<and> str s' = str s
         \<and> scan_bounded (length input) (Scanner_init input) = Some (scan input)"
proof -
  have "scan_bounded (length input) (Scanner_init input) = Some (scan input)"
    unfolding scan_def
    by (rule scan_bounded_enough) (simp add: Scanner_init_def)
  with scanToken_advances [OF assms(2)] show ?thesis by simp
qed

theorem scan_terminates_witness:
  "current (Scanner_init ''7 '') < 1
   \<and> scan_bounded (length ''7 '') (Scanner_init ''7 '')
        = Some (Inr [Token NUMBER (IntV 7), Token EOF_TOKEN Monostate])"
proof -
  let ?s = "Scanner_init ''7 ''"
  let ?s' = "\<lparr>str = ''7 '', start = 0, current = 1, line = 1, tokens = [Token NUMBER (IntV 7)]\<rparr>"
  have 1: "\<not> isLast ?s" by (simp add: isLast_def Scanner_init_def)
  have 2: "scanToken (?s\<lparr>start := current ?s\<rparr>) = Inr ?s'"
    by (simp add: Scanner_init_def scan_eval lex_eval)
  have 3: "scan ''7 '' = Inr [Token NUMBER (IntV 7), Token EOF_TOKEN Monostate]"
    by (simp add: scan_eq_lex lex_eval)
  from scan_terminates [OF 1 2, of "''7 ''"] 3 show ?thesis by simp
qed

subsection \<open>C7: the token sequence ends with one EOF token\<close>

text \<open>
  C7. For every input on which \<open>scan\<close> returns, the returned token sequence ends with
  exactly one \<open>EOF_TOKEN\<close>: the last token is \<open>EOF_TOKEN\<close> and no token before it is, so
  the sequence holds exactly one; for the empty input the sequence is the \<open>EOF_TOKEN\<close>
  alone.
\<close>

theorem scan_ends_with_one_eof:
  assumes "scan input = Inr ts"
  shows "ts \<noteq> [] \<and> token_type (last ts) = EOF_TOKEN
         \<and> (\<forall>t \<in> set (butlast ts). token_type t \<noteq> EOF_TOKEN)
         \<and> length (filter (\<lambda>t. token_type t = EOF_TOKEN) ts) = 1
         \<and> scan [] = Inr [Token EOF_TOKEN Monostate]"
proof -
  from assms have "lex input = Inr ts" by (simp add: scan_eq_lex)
  from lex_ends_with_eof [OF this]
  have 1: "ts \<noteq> []" "last ts = Token EOF_TOKEN Monostate"
    "\<forall>t \<in> set (butlast ts). token_type t \<noteq> EOF_TOKEN"
    by auto
  from 1(1) have ts: "ts = butlast ts @ [last ts]" by simp
  have "filter (\<lambda>t. token_type t = EOF_TOKEN) (butlast ts) = []"
    using 1(3) by (simp add: filter_empty_conv)
  then have "length (filter (\<lambda>t. token_type t = EOF_TOKEN) (butlast ts @ [last ts])) = 1"
    using 1(2) by simp
  with ts have 2: "length (filter (\<lambda>t. token_type t = EOF_TOKEN) ts) = 1" by simp
  have 3: "scan [] = Inr [Token EOF_TOKEN Monostate]" by (simp add: scan_eq_lex)
  from 1 2 3 show ?thesis by simp
qed

theorem scan_ends_with_one_eof_witness:
  "scan ''[1]'' = Inr [Token LEFT_SQUARE (StringV ''[''), Token NUMBER (IntV 1),
                        Token RIGHT_SQUARE (StringV '']''), Token EOF_TOKEN Monostate]
   \<and> length (filter (\<lambda>t. token_type t = EOF_TOKEN)
        [Token LEFT_SQUARE (StringV ''[''), Token NUMBER (IntV 1),
         Token RIGHT_SQUARE (StringV '']''), Token EOF_TOKEN Monostate]) = 1
   \<and> scan [] = Inr [Token EOF_TOKEN Monostate]"
proof -
  have s: "scan ''[1]'' = Inr [Token LEFT_SQUARE (StringV ''[''), Token NUMBER (IntV 1),
                        Token RIGHT_SQUARE (StringV '']''), Token EOF_TOKEN Monostate]"
    by (simp add: scan_eq_lex lex_eval)
  from scan_ends_with_one_eof [OF s] s show ?thesis by simp
qed

subsection \<open>C3: string literals\<close>

text \<open>
  C3, as amended. When the scanner stands on an opening double quote, it consumes the
  characters up to the next double quote, whether or not a backslash stands before that
  quote; the payload of the \<open>STRING\<close> token is the text between the two quotes as it is
  (\<open>body\<close>, backslashes included); when no double quote follows before the end of the
  input, the scan fails with \<open>"Unterminated string"\<close>.
\<close>

theorem string_literal_ends_at_next_quote:
  assumes "current s = length pre" and "CHR ''\"'' \<notin> set body"
  shows "(str s = pre @ CHR ''\"'' # body @ CHR ''\"'' # rest \<longrightarrow>
            scanToken (s\<lparr>start := current s\<rparr>) =
              Inr (s\<lparr>start := length pre, current := length pre + length body + 2,
                     tokens := tokens s @ [Token STRING (StringV body)]\<rparr>))
       \<and> (str s = pre @ CHR ''\"'' # body \<longrightarrow>
            scanToken (s\<lparr>start := current s\<rparr>) = Inl UnterminatedString)"
proof (intro conjI impI)
  assume st: "str s = pre @ CHR ''\"'' # body @ CHR ''\"'' # rest"
  let ?s0 = "s\<lparr>start := current s\<rparr>"
  have lt: "current ?s0 < length (str ?s0)" using assms(1) st by simp
  have c: "str ?s0 ! current ?s0 = CHR ''\"''" using assms(1) st by simp
  have cs: "drop (Suc (current ?s0)) (str ?s0) = body @ CHR ''\"'' # rest"
    using assms(1) st by simp
  have "lex_token (CHR ''\"'') (body @ CHR ''\"'' # rest)
          = Inr (Some (Token STRING (StringV body)), length body + 1)"
    using lex_string_closed [OF assms(2)] by (simp add: lex_token_def)
  with scanToken_lex [OF lt, unfolded c cs] assms(1)
  show "scanToken ?s0 =
          Inr (s\<lparr>start := length pre, current := length pre + length body + 2,
                 tokens := tokens s @ [Token STRING (StringV body)]\<rparr>)"
    by (simp add: pushed_def)
next
  assume st: "str s = pre @ CHR ''\"'' # body"
  let ?s0 = "s\<lparr>start := current s\<rparr>"
  have lt: "current ?s0 < length (str ?s0)" using assms(1) st by simp
  have c: "str ?s0 ! current ?s0 = CHR ''\"''" using assms(1) st by simp
  have cs: "drop (Suc (current ?s0)) (str ?s0) = body"
    using assms(1) st by simp
  have "lex_token (CHR ''\"'') body = Inl UnterminatedString"
    using lex_string_open [OF assms(2)] by (simp add: lex_token_def)
  with scanToken_lex [OF lt, unfolded c cs]
  show "scanToken ?s0 = Inl UnterminatedString" by simp
qed

theorem string_literal_ends_at_next_quote_witness:
  "scanToken \<lparr>str = [CHR '' '', CHR ''\"'', CHR ''a'', CHR 0x5C, CHR ''n'', CHR ''\"'', CHR '',''],
              start = 1, current = 1, line = 1, tokens = []\<rparr>
     = Inr \<lparr>str = [CHR '' '', CHR ''\"'', CHR ''a'', CHR 0x5C, CHR ''n'', CHR ''\"'', CHR '',''],
            start = 1, current = 6, line = 1,
            tokens = [Token STRING (StringV [CHR ''a'', CHR 0x5C, CHR ''n''])]\<rparr>
   \<and> scanToken \<lparr>str = [CHR ''\"'', CHR ''a'', CHR ''b''],
              start = 0, current = 0, line = 1, tokens = []\<rparr> = Inl UnterminatedString"
proof -
  let ?s = "\<lparr>str = [CHR '' '', CHR ''\"'', CHR ''a'', CHR 0x5C, CHR ''n'', CHR ''\"'', CHR '',''],
              start = 0, current = 1, line = 1, tokens = []\<rparr>"
  let ?u = "\<lparr>str = [CHR ''\"'', CHR ''a'', CHR ''b''],
              start = 0, current = 0, line = 1, tokens = []\<rparr>"
  have 1: "current ?s = length [CHR '' '']" by simp
  have 2: "CHR ''\"'' \<notin> set [CHR ''a'', CHR 0x5C, CHR ''n'']" by simp
  have 3: "current ?u = length ([] :: string)" by simp
  have 4: "CHR ''\"'' \<notin> set [CHR ''a'', CHR ''b'']" by simp
  from string_literal_ends_at_next_quote [OF 1 2, of "[CHR '','']"]
       string_literal_ends_at_next_quote [OF 3 4, of "[]"]
  show ?thesis by simp
qed

text \<open>
  C3 as stated fails: in the five characters \<open>"a\"1\<close> (a quote, \<open>a\<close>, a backslash, a
  quote, \<open>1\<close>) the quote after the backslash ends the literal, whose payload is \<open>a\\<close>,
  and the scan goes on to the number instead of failing for want of a closing quote; and
  the six characters \<open>"a\"b"\<close> do not scan to one string token but fail at \<open>b\<close>.
  (\<open>CHR 0x5C\<close> is the backslash.)
\<close>

theorem escaped_quote_counterexample:
  "scan [CHR ''\"'', CHR ''a'', CHR 0x5C, CHR ''\"'', CHR ''1'']
     = Inr [Token STRING (StringV [CHR ''a'', CHR 0x5C]), Token NUMBER (IntV 1),
            Token EOF_TOKEN Monostate]
   \<and> scan [CHR ''\"'', CHR ''a'', CHR 0x5C, CHR ''\"'', CHR ''b'', CHR ''\"'']
     = Inl UnexpectedToken"
  by (simp add: scan_eq_lex lex_eval)

subsection \<open>C6: the variant of a number follows its lexical form\<close>

text \<open>
  C6, as amended. The variant of a number is decided by the lexical form of its literal
  (an optional \<open>-\<close>, digits, and optionally a point and more digits), wherever the
  literal stands in the text, as long as the conversion of the literal succeeds. A literal
  without a decimal point gives the \<open>NUMBER\<close> token, and \<open>parse\<close> the value, of the
  integer variant holding what \<open>stoi\<close> returns: the value of the literal when it fits
  the 32-bit \<open>int\<close>; otherwise \<open>stoi\<close> throws \<open>std::out_of_range\<close> and so do the scan
  and \<open>parse\<close>. A literal with a decimal point gives the float variant holding what
  \<open>stod\<close> returns, the binary64 number nearest to the decimal value; when \<open>stod\<close> throws
  \<open>std::out_of_range\<close> (overflow or underflow) so do the scan and \<open>parse\<close>. No literal
  gives a value of the other variant. \<open>"3"\<close> parses to the integer 3, \<open>"3.0"\<close> and
  \<open>"3.5"\<close> to float values, \<open>"-3"\<close> to the integer -3.
\<close>

theorem number_variant_by_lexical_form:
  assumes "sign = [] \<or> sign = ''-''"
    and "ds \<noteq> []" and "\<forall>c \<in> set ds. isdigit c"
    and "fs \<noteq> []" and "\<forall>c \<in> set fs. isdigit c"
    and "current s = length pre"
    and "rest = [] \<or> \<not> isdigit (hd rest)"
  shows
    "(str s = pre @ sign @ ds @ rest \<and> (rest = [] \<or> hd rest \<noteq> CHR ''.'') \<longrightarrow>
        scanToken (s\<lparr>start := current s\<rparr>) =
          (case stoi (sign @ ds) of
             Inl e \<Rightarrow> Inl e
           | Inr i \<Rightarrow>
               Inr (s\<lparr>start := length pre, current := length pre + length (sign @ ds),
                      tokens := tokens s @ [Token NUMBER (IntV i)]\<rparr>)))
   \<and> (str s = pre @ sign @ ds @ ''.'' @ fs @ rest \<longrightarrow>
        scanToken (s\<lparr>start := current s\<rparr>) =
          (case stod (sign @ ds @ ''.'' @ fs) of
             Inl e \<Rightarrow> Inl e
           | Inr d \<Rightarrow>
               Inr (s\<lparr>start := length pre,
                      current := length pre + length (sign @ ds @ ''.'' @ fs),
                      tokens := tokens s @ [Token NUMBER (DoubleV d)]\<rparr>)))
   \<and> stoi (sign @ ds) =
        (let v = (if sign = [] then int (digits_value ds) else - int (digits_value ds))
         in if - (2 ^ 31) \<le> v \<and> v < 2 ^ 31 then Inr (word_of_int v) else Inl OutOfRange)
   \<and> stod (sign @ ds @ ''.'' @ fs) =
        (case round_binary64 (of_nat (digits_value ds)
                              + of_nat (digits_value fs) / 10 ^ length fs) of
           Inl e \<Rightarrow> Inl e
         | Inr x \<Rightarrow> Inr (Double (sign \<noteq> []) x))
   \<and> parse (sign @ ds) =
        (case stoi (sign @ ds) of Inl e \<Rightarrow> Inl e | Inr i \<Rightarrow> Inr (JInt i))
   \<and> parse (sign @ ds @ ''.'' @ fs) =
        (case stod (sign @ ds @ ''.'' @ fs) of Inl e \<Rightarrow> Inl e | Inr d \<Rightarrow> Inr (JDouble d))
   \<and> parse ''3'' = Inr (JInt 3)
   \<and> parse ''3.0'' = Inr (JDouble (Double False 3))
   \<and> parse ''3.5'' = Inr (JDouble (Double False (7 / 2)))
   \<and> parse ''-3'' = Inr (JInt (- 3))"
proof -
  have int_ctx: "scanToken (s\<lparr>start := current s\<rparr>) =
          (case stoi (sign @ ds) of
             Inl e \<Rightarrow> Inl e
           | Inr i \<Rightarrow>
               Inr (s\<lparr>start := length pre, current := length pre + length (sign @ ds),
                      tokens := tokens s @ [Token NUMBER (IntV i)]\<rparr>))"
    if "str s = pre @ sign @ ds @ rest" "rest = [] \<or> hd rest \<noteq> CHR ''.''"
    by (rule scan_int_literal [OF assms(1,2,3,6) that(1) assms(7) that(2)])
  have float_ctx: "scanToken (s\<lparr>start := current s\<rparr>) =
          (case stod (sign @ ds @ ''.'' @ fs) of
             Inl e \<Rightarrow> Inl e
           | Inr d \<Rightarrow>
               Inr (s\<lparr>start := length pre,
                      current := length pre + length (sign @ ds @ ''.'' @ fs),
                      tokens := tokens s @ [Token NUMBER (DoubleV d)]\<rparr>))"
    if "str s = pre @ sign @ ds @ ''.'' @ fs @ rest"
    by (rule scan_float_literal [OF assms(1,2,3,4,5,6) that assms(7)])
  from int_ctx float_ctx stoi_literal [OF assms(1,2,3)] stod_literal [OF assms(1,2,3,5)]
    parse_int_literal [OF assms(1,2,3)] parse_float_literal [OF assms(1,2,3,4,5)]
    number_examples
  show ?thesis by (intro conjI impI) (simp_all only:)
qed

theorem number_variant_by_lexical_form_witness:
  "scanToken \<lparr>str = ''[-12,7]'', start = 1, current = 1, line = 1,
              tokens = [Token LEFT_SQUARE (StringV ''['')]\<rparr>
     = Inr \<lparr>str = ''[-12,7]'', start = 1, current = 4, line = 1,
            tokens = [Token LEFT_SQUARE (StringV ''[''), Token NUMBER (IntV (- 12))]\<rparr>
   \<and> scanToken \<lparr>str = ''[-12.50]'', start = 1, current = 1, line = 1,
              tokens = [Token LEFT_SQUARE (StringV ''['')]\<rparr>
     = Inr \<lparr>str = ''[-12.50]'', start = 1, current = 7, line = 1,
            tokens = [Token LEFT_SQUARE (StringV ''[''),
                      Token NUMBER (DoubleV (Double True (25 / 2)))]\<rparr>
   \<and> parse ''-12'' = Inr (JInt (- 12))
   \<and> parse ''-12.50'' = Inr (JDouble (Double True (25 / 2)))"
proof -
  let ?s = "\<lparr>str = ''[-12,7]'', start = 0, current = 1, line = 1,
              tokens = [Token LEFT_SQUARE (StringV ''['')]\<rparr>"
  let ?u = "\<lparr>str = ''[-12.50]'', start = 0, current = 1, line = 1,
              tokens = [Token LEFT_SQUARE (StringV ''['')]\<rparr>"
  have 1: "''-'' = [] \<or> ''-'' = ''-''" by simp
  have 2: "''12'' \<noteq> []" by simp
  have 3: "\<forall>c \<in> set ''12''. isdigit c" by (simp add: isdigit_def)
  have 4: "''50'' \<noteq> []" by simp
  have 5: "\<forall>c \<in> set ''50''. isdigit c" by (simp add: isdigit_def)
  have 6: "current ?s = length ''[''" "current ?u = length ''[''" by simp_all
  have 7: "'',7]'' = [] \<or> \<not> isdigit (hd '',7]'')" "'']'' = [] \<or> \<not> isdigit (hd '']'')"
    by (simp_all add: isdigit_def)
  have i: "stoi ''-12'' = Inr (- 12)" by (simp add: lex_eval)
  have d: "stod ''-12.50'' = Inr (Double True (25 / 2))" by (simp add: lex_eval)
  from number_variant_by_lexical_form [OF 1 2 3 4 5 6(1) 7(1)]
  have a: "scanToken (?s\<lparr>start := current ?s\<rparr>) =
          (case stoi (''-'' @ ''12'') of
             Inl e \<Rightarrow> Inl e
           | Inr i \<Rightarrow>
               Inr (?s\<lparr>start := length ''['', current := length ''['' + length (''-'' @ ''12''),
                      tokens := tokens ?s @ [Token NUMBER (IntV i)]\<rparr>))"
    and b: "parse (''-'' @ ''12'') =
          (case stoi (''-'' @ ''12'') of Inl e \<Rightarrow> Inl e | Inr i \<Rightarrow> Inr (JInt i))"
    and c: "parse (''-'' @ ''12'' @ ''.'' @ ''50'') =
          (case stod (''-'' @ ''12'' @ ''.'' @ ''50'') of
             Inl e \<Rightarrow> Inl e | Inr d \<Rightarrow> Inr (JDouble d))"
    by simp_all
  from number_variant_by_lexical_form [OF 1 2 3 4 5 6(2) 7(2)]
  have e: "scanToken (?u\<lparr>start := current ?u\<rparr>) =
          (case stod (''-'' @ ''12'' @ ''.'' @ ''50'') of
             Inl e \<Rightarrow> Inl e
           | Inr d \<Rightarrow>
               Inr (?u\<lparr>start := length ''['',
                      current := length ''['' + length (''-'' @ ''12'' @ ''.'' @ ''50''),
                      tokens := tokens ?u @ [Token NUMBER (DoubleV d)]\<rparr>))"
    by simp
  from a b c e i d show ?thesis by simp
qed

text \<open>
  C6 as stated fails for the literals whose conversion throws: \<open>2147483648\<close> has no
  decimal point and gives no integer value, and the literals \<open>1\<close> followed by 309 zeros
  and \<open>.0\<close>, and \<open>0.\<close> followed by 400 zeros and \<open>1\<close>, have a decimal point and give
  no float value; \<open>parse\<close> fails with \<open>std::out_of_range\<close> on each.
\<close>

theorem number_out_of_range_counterexample:
  "parse ''2147483648'' = Inl OutOfRange
   \<and> parse (CHR ''1'' # replicate 309 (CHR ''0'') @ ''.0'') = Inl OutOfRange
   \<and> parse (''0.'' @ replicate 400 (CHR ''0'') @ ''1'') = Inl OutOfRange"
proof -
  have 1: "parse ''2147483648'' = Inl OutOfRange"
    by (simp add: parse_def scan_eq_lex lex_eval)
  have d1: "\<forall>c \<in> set (CHR ''1'' # replicate 309 (CHR ''0'')). isdigit c"
    by (auto simp: isdigit_def)
  have d2: "\<forall>c \<in> set (replicate 400 (CHR ''0'') @ ''1''). isdigit c"
    by (auto simp: isdigit_def)
  have d0: "\<forall>c \<in> set ''0''. isdigit c" by (simp add: isdigit_def)
  have "parse ([] @ (CHR ''1'' # replicate 309 (CHR ''0'')) @ ''.'' @ ''0'') = Inl OutOfRange"
    by (subst parse_float_literal) (use d1 d0 stod_overflow in simp_all)
  then have 2: "parse (CHR ''1'' # replicate 309 (CHR ''0'') @ ''.0'') = Inl OutOfRange"
    by simp
  have "parse ([] @ ''0'' @ ''.'' @ (replicate 400 (CHR ''0'') @ ''1'')) = Inl OutOfRange"
    by (subst parse_float_literal) (use d2 d0 stod_underflow in simp_all)
  then have 3: "parse (''0.'' @ replicate 400 (CHR ''0'') @ ''1'') = Inl OutOfRange"
    by simp
  from 1 2 3 show ?thesis by simp
qed

subsection \<open>C10: the parser reads within the token sequence\<close>

text \<open>
  C10. For every token sequence whose last token is EOF, every token access of the parser
  (\<open>advanceCurrent\<close>, \<open>getCurrValue\<close>) reads an index within the sequence, on the succeeding
  and on the failing paths: the model gives \<open>OutOfBounds\<close> at the first access outside the
  sequence and hands it on to the result, and the result never is \<open>OutOfBounds\<close>
  (nor does the fuel of the model run out). The cursor never exceeds the length of the
  sequence, and when the parse succeeds it is at most the index of the last token: the EOF
  token has not been consumed. For a text, \<open>parse\<close> never reads outside the tokens that
  \<open>scan\<close> returned.

  The cursor does advance past the EOF token on failing paths, though:
  \<open>advanceCurrent\<close> reads the EOF token and increments the cursor before the token is
  rejected, as for \<open>[\<close> where \<open>parse_array\<close> reads EOF at index 1, leaves the cursor at 2
  and throws.
\<close>

theorem parser_reads_within_bounds:
  assumes "ts \<noteq> []" and "token_type (last ts) = EOF_TOKEN"
  shows "fst (Parser_parse ts) \<noteq> Inl OutOfBounds
       \<and> fst (Parser_parse ts) \<noteq> Inl OutOfFuel
       \<and> snd (Parser_parse ts) \<le> length ts
       \<and> (\<forall>v. fst (Parser_parse ts) = Inr v \<longrightarrow> snd (Parser_parse ts) < length ts)
       \<and> parse input \<noteq> Inl OutOfBounds \<and> parse input \<noteq> Inl OutOfFuel"
proof -
  obtain r c where rc: "parse_from_token (2 * length ts) ts (ts ! 0) (Suc 0) = (r, c)"
    by (cases "parse_from_token (2 * length ts) ts (ts ! 0) (Suc 0)")
  from assms(1) have "Suc 0 \<le> length ts" by (cases ts) auto
  with in_bounds [OF assms, of 0 "2 * length ts" r c] rc
  have "r \<noteq> Inl OutOfBounds \<and> c \<le> length ts \<and> (\<forall>v. r = Inr v \<longrightarrow> c < length ts)"
    by blast
  moreover from top_fuel [OF assms(1), of "ts ! 0"] rc have "r \<noteq> Inl OutOfFuel" by simp
  ultimately show ?thesis
    using rc assms(1) parse_never_out_of_bounds [of input] by (simp add: Parser_parse_value)
qed

theorem parser_reads_within_bounds_witness:
  "Parser_parse [Token LEFT_SQUARE (StringV ''[''), Token NUMBER (IntV 1),
                 Token EOF_TOKEN Monostate] = (Inl MissingComma, 2)
   \<and> fst (Parser_parse [Token LEFT_SQUARE (StringV ''[''), Token NUMBER (IntV 1),
                 Token EOF_TOKEN Monostate]) \<noteq> Inl OutOfBounds
   \<and> snd (Parser_parse [Token LEFT_SQUARE (StringV ''[''), Token NUMBER (IntV 1),
                 Token EOF_TOKEN Monostate]) \<le> 3
   \<and> parse ''[1'' \<noteq> Inl OutOfBounds"
proof -
  let ?ts = "[Token LEFT_SQUARE (StringV ''[''), Token NUMBER (IntV 1), Token EOF_TOKEN Monostate]"
  have 1: "?ts \<noteq> []" by simp
  have 2: "token_type (last ?ts) = EOF_TOKEN" by simp
  have 3: "Parser_parse ?ts = (Inl MissingComma, 2)" by (simp add: parser_eval)
  from parser_reads_within_bounds [OF 1 2, of "''[1''"] 3 show ?thesis by simp
qed

theorem cursor_passes_eof_counterexample:
  "scan ''['' = Inr [Token LEFT_SQUARE (StringV ''[''), Token EOF_TOKEN Monostate]
   \<and> Parser_parse [Token LEFT_SQUARE (StringV ''[''), Token EOF_TOKEN Monostate]
       = (Inl UnterminatedArray, 2)
   \<and> scan '''' = Inr [Token EOF_TOKEN Monostate]
   \<and> Parser_parse [Token EOF_TOKEN Monostate] = (Inl UnexpectedToken, 1)"
  by (simp add: cursor_examples)

subsection \<open>C4: the tokens after the first value\<close>

text \<open>
  C4. \<open>parse\<close> does not consume the entire token sequence: it returns the first complete
  value and never looks at the tokens that follow it. If the parser succeeds on \<open>ts\<close> with
  the cursor at \<open>c\<close>, it succeeds with the same value and cursor on every sequence that has
  the same first \<open>c\<close> tokens, whatever follows them; so a text whose tokens start with
  those of a value that parses is parsed to that value. The texts \<open>1 2\<close> and \<open>{} 5\<close> parse
  to \<open>1\<close> and to the empty object.
\<close>

theorem parse_returns_first_value:
  assumes "Parser_parse ts = (Inr v, c)" and "take c ts' = take c ts"
  shows "Parser_parse ts' = (Inr v, c) \<and> (scan input' = Inr ts' \<longrightarrow> parse input' = Inr v)"
proof -
  from assms(1) have ne: "ts \<noteq> []"
    by (auto simp: Parser_parse_def Parser_advanceCurrent_def)
  with assms(1) have p: "parse_from_token (2 * length ts) ts (ts ! 0) 1 = (Inr v, c)"
    by (simp add: Parser_parse_value)
  from value_mono [OF p] have c: "0 < c" by simp
  from ne have "0 < length ts" by simp
  note s0 = same_upto [OF assms(2) c this]
  from s0(1) have ne': "ts' \<noteq> []" by auto
  from prefix_indep [of "2 * length ts" ts ts'] p assms(2)
  have p': "parse_from_token (2 * length ts) ts' (ts ! 0) 1 = (Inr v, c)" by blast
  have "parse_from_token (2 * length ts') ts' (ts ! 0) 1 = (Inr v, c)"
  proof (cases "length ts \<le> length ts'")
    case True
    then have "2 * length ts \<le> 2 * length ts'" by simp
    from fuel_mono_value [OF this, of ts' "ts ! 0" 1] p' show ?thesis by simp
  next
    case False
    then have "2 * length ts' \<le> 2 * length ts" by simp
    from fuel_mono_value [OF this top_fuel [OF ne'], of "ts ! 0"] p' show ?thesis by simp
  qed
  with ne' s0(2) have "Parser_parse ts' = (Inr v, c)" by (simp add: Parser_parse_value)
  then show ?thesis by (simp add: parse_def)
qed

theorem parse_returns_first_value_witness:
  "Parser_parse [Token NUMBER (IntV 1), Token EOF_TOKEN Monostate] = (Inr (JInt 1), 1)
   \<and> Parser_parse [Token NUMBER (IntV 1), Token NUMBER (IntV 2), Token EOF_TOKEN Monostate]
       = (Inr (JInt 1), 1)
   \<and> parse ''1 2'' = Inr (JInt 1)"
proof -
  have 1: "Parser_parse [Token NUMBER (IntV 1), Token EOF_TOKEN Monostate] = (Inr (JInt 1), 1)"
    by (simp add: parser_eval)
  have 2: "take 1 [Token NUMBER (IntV 1), Token NUMBER (IntV 2), Token EOF_TOKEN Monostate]
            = take 1 [Token NUMBER (IntV 1), Token EOF_TOKEN Monostate]"
    by simp
  have 3: "scan ''1 2'' = Inr [Token NUMBER (IntV 1), Token NUMBER (IntV 2),
                                Token EOF_TOKEN Monostate]"
    by (simp add: scan_eq_lex lex_eval)
  from parse_returns_first_value [OF 1 2, of "''1 2''"] 1 3 show ?thesis by simp
qed

theorem parse_ignores_rest_counterexample:
  "parse ''1 2'' = Inr (JInt 1) \<and> parse ''{} 5'' = Inr (JObject [])"
proof -
  have s1: "scan ''1 2'' = Inr [Token NUMBER (IntV 1), Token NUMBER (IntV 2),
                                Token EOF_TOKEN Monostate]"
    by (simp add: scan_eq_lex lex_eval)
  have p1: "Parser_parse [Token NUMBER (IntV 1), Token NUMBER (IntV 2),
                          Token EOF_TOKEN Monostate] = (Inr (JInt 1), 1)"
    by (simp add: parser_eval)
  have s2: "scan ''{} 5'' = Inr [Token LEFT_CURLY (StringV ''{''),
                                 Token RIGHT_CURLY (StringV ''}''), Token NUMBER (IntV 5),
                                 Token EOF_TOKEN Monostate]"
    by (simp add: scan_eq_lex lex_eval)
  have p2: "Parser_parse [Token LEFT_CURLY (StringV ''{''),
                          Token RIGHT_CURLY (StringV ''}''), Token NUMBER (IntV 5),
                          Token EOF_TOKEN Monostate] = (Inr (JObject []), 2)"
    by (simp add: parser_eval)
  show ?thesis by (simp add: parse_def s1 p1 s2 p2)
qed

subsection \<open>C2: trailing commas\<close>

text \<open>
  C2. A comma after the last element of an array or the last pair of an object is not
  rejected: it is skipped. In the turn of the loop of \<open>parse_array\<close> that parses an element
  \<open>v\<close>, when the element is followed by a comma and the comma by \<open>]\<close>,
  \<open>consume_until_comma\<close> steps over the comma, \<open>advanceCurrent\<close> reads \<open>]\<close> and the loop
  ends: the array is returned with \<open>v\<close> as its last element, the cursor after the \<open>]\<close>.
  In the same way the loop of \<open>parse_object\<close> returns the object with the pair assigned
  when the pair is followed by a comma and \<open>}\<close>. The texts \<open>[1,2,]\<close> and \<open>{"a":1,}\<close> parse
  to the values of \<open>[1,2]\<close> and \<open>{"a":1}\<close>.
\<close>

theorem trailing_comma_is_skipped:
  "(token_type tok \<noteq> RIGHT_SQUARE \<and> token_type tok \<noteq> EOF_TOKEN
      \<and> parse_from_token (Suc n) ts tok cur = (Inr v, c)
      \<and> Suc c < length ts \<and> token_type (ts ! c) = COMMA
      \<and> token_type (ts ! Suc c) = RIGHT_SQUARE
    \<longrightarrow> parse_array_loop (Suc (Suc n)) ts arr tok cur = (Inr (arr @ [v]), Suc (Suc c)))
   \<and> (token_type key = STRING \<and> token_value key = StringV k
      \<and> Suc cur < length ts \<and> token_type (ts ! cur) = COLON
      \<and> parse_from_token (Suc n) ts (ts ! Suc cur) (Suc (Suc cur)) = (Inr v, c)
      \<and> Suc c < length ts \<and> token_type (ts ! c) = COMMA
      \<and> token_type (ts ! Suc c) = RIGHT_CURLY
    \<longrightarrow> parse_object_loop (Suc (Suc n)) ts obj key cur
          = (Inr (map_assign obj k v), Suc (Suc c)))
   \<and> parse ''[1,2,]'' = Inr (JArray [JInt 1, JInt 2])
   \<and> parse ''[1,2]'' = Inr (JArray [JInt 1, JInt 2])
   \<and> parse ''{\"a\":1,}'' = Inr (JObject [(''a'', JInt 1)])
   \<and> parse ''{\"a\":1}'' = Inr (JObject [(''a'', JInt 1)])"
  using array_trailing_comma [of tok n ts cur v c arr]
    object_trailing_comma [of key k cur ts n v c obj]
  by (simp add: trailing_comma_examples get_string_def)

theorem trailing_comma_is_skipped_witness:
  "parse_array_loop 2 [Token LEFT_SQUARE (StringV ''[''), Token NUMBER (IntV 1),
       Token COMMA (StringV '',''), Token RIGHT_SQUARE (StringV '']''), Token EOF_TOKEN Monostate]
     [] (Token NUMBER (IntV 1)) 2 = (Inr [JInt 1], 4)
   \<and> parse_object_loop 2 [Token LEFT_CURLY (StringV ''{''), Token STRING (StringV ''a''),
       Token COLON (StringV '':''), Token NUMBER (IntV 1), Token COMMA (StringV '',''),
       Token RIGHT_CURLY (StringV ''}''), Token EOF_TOKEN Monostate]
     [] (Token STRING (StringV ''a'')) 2 = (Inr [(''a'', JInt 1)], 6)"
proof -
  let ?a = "[Token LEFT_SQUARE (StringV ''[''), Token NUMBER (IntV 1),
       Token COMMA (StringV '',''), Token RIGHT_SQUARE (StringV '']''), Token EOF_TOKEN Monostate]"
  let ?b = "[Token LEFT_CURLY (StringV ''{''), Token STRING (StringV ''a''),
       Token COLON (StringV '':''), Token NUMBER (IntV 1), Token COMMA (StringV '',''),
       Token RIGHT_CURLY (StringV ''}''), Token EOF_TOKEN Monostate]"
  have 1: "parse_from_token (Suc 0) ?a (Token NUMBER (IntV 1)) 2 = (Inr (JInt 1), 2)"
    by (simp add: parser_eval)
  have 2: "parse_from_token (Suc 0) ?b (?b ! Suc 2) (Suc (Suc 2)) = (Inr (JInt 1), 4)"
    by (simp add: parser_eval)
  from trailing_comma_is_skipped [of "Token NUMBER (IntV 1)" 0 ?a 2 "JInt 1" 2 "[]"
      "Token STRING (StringV ''a'')" "''a''" "[]"] 1
  have a: "parse_array_loop 2 ?a [] (Token NUMBER (IntV 1)) 2 = (Inr [JInt 1], 4)"
    by (simp add: eval_nat_numeral)
  from trailing_comma_is_skipped [of "Token STRING (StringV ''a'')" 0 ?b 2 "JInt 1" 4 "[]"
      "Token STRING (StringV ''a'')" "''a''" "[]"] 2
  have b: "parse_object_loop 2 ?b [] (Token STRING (StringV ''a'')) 2 = (Inr [(''a'', JInt 1)], 6)"
    by (simp add: eval_nat_numeral)
  from a b show ?thesis by simp
qed

theorem trailing_comma_accepted_counterexample:
  "parse ''[1,2,]'' = Inr (JArray [JInt 1, JInt 2])
   \<and> parse ''{\"a\":1,}'' = Inr (JObject [(''a'', JInt 1)])"
  by (simp add: trailing_comma_examples)

subsection \<open>C8: the end of the input inside an array or an object\<close>

text \<open>
  C8. When the EOF token is reached inside an array or an object, the exception depends
  on the place. Where the loop of \<open>parse_array\<close> expects an element or \<open>]\<close> (after \<open>[\<close> or
  after a comma), EOF gives \<open>UnterminatedArray\<close>; where the loop of \<open>parse_object\<close> expects
  a key or \<open>}\<close> (after \<open>{\<close> or after a comma), EOF gives \<open>UnterminatedObject\<close>. But EOF
  directly after an element of an array, or after a pair of an object, is rejected by
  \<open>consume_until_comma\<close> with \<open>MissingComma\<close> before the loop sees it; EOF after a key
  gives \<open>ExpectedColon\<close>, and EOF after the colon gives \<open>UnexpectedToken\<close>. So \<open>[\<close> and
  \<open>[1,\<close> fail with \<open>UnterminatedArray\<close>, \<open>{\<close> and \<open>{"a":1,\<close> with \<open>UnterminatedObject\<close>,
  but \<open>[1\<close> and \<open>{"a":1\<close> fail with \<open>MissingComma\<close>.
\<close>

theorem eof_inside_array_or_object:
  "(token_type tok = EOF_TOKEN
    \<longrightarrow> parse_array_loop (Suc n) ts arr tok cur = (Inl UnterminatedArray, cur))
   \<and> (token_type tok \<noteq> RIGHT_SQUARE \<and> token_type tok \<noteq> EOF_TOKEN
      \<and> parse_from_token n ts tok cur = (Inr v, c)
      \<and> c < length ts \<and> token_type (ts ! c) = EOF_TOKEN
    \<longrightarrow> parse_array_loop (Suc n) ts arr tok cur = (Inl MissingComma, c))
   \<and> (token_type key = EOF_TOKEN
    \<longrightarrow> parse_object_loop (Suc n) ts obj key cur = (Inl UnterminatedObject, cur))
   \<and> (token_type key = STRING \<and> cur < length ts \<and> token_type (ts ! cur) = EOF_TOKEN
    \<longrightarrow> parse_object_loop (Suc n) ts obj key cur = (Inl ExpectedColon, cur))
   \<and> (token_type key = STRING \<and> Suc cur < length ts \<and> token_type (ts ! cur) = COLON
      \<and> token_type (ts ! Suc cur) = EOF_TOKEN
    \<longrightarrow> parse_object_loop (Suc (Suc n)) ts obj key cur = (Inl UnexpectedToken, Suc (Suc cur)))
   \<and> (token_type key = STRING \<and> token_value key = StringV k
      \<and> Suc cur < length ts \<and> token_type (ts ! cur) = COLON
      \<and> parse_from_token n ts (ts ! Suc cur) (Suc (Suc cur)) = (Inr v', c')
      \<and> c' < length ts \<and> token_type (ts ! c') = EOF_TOKEN
    \<longrightarrow> parse_object_loop (Suc n) ts obj key cur = (Inl MissingComma, c'))
   \<and> parse ''['' = Inl UnterminatedArray
   \<and> parse ''[1,'' = Inl UnterminatedArray
   \<and> parse ''[1'' = Inl MissingComma
   \<and> parse ''{'' = Inl UnterminatedObject
   \<and> parse ''{\"a\":1,'' = Inl UnterminatedObject
   \<and> parse ''{\"a\"'' = Inl ExpectedColon
   \<and> parse ''{\"a\":'' = Inl UnexpectedToken
   \<and> parse ''{\"a\":1'' = Inl MissingComma"
  using array_eof_at_element [of tok n ts arr cur]
    array_eof_after_element [of tok n ts cur v c arr]
    object_eof_at_key [of key n ts obj cur]
    object_eof_after_key [of key cur ts n obj]
    object_eof_after_colon [of key cur ts n obj]
    object_eof_after_pair [of key k cur ts n v' c' obj]
  by (simp add: eof_examples get_string_def)

theorem eof_inside_array_or_object_witness:
  "parse_array_loop 1 [Token LEFT_SQUARE (StringV ''[''), Token EOF_TOKEN Monostate]
     [] (Token EOF_TOKEN Monostate) 2 = (Inl UnterminatedArray, 2)
   \<and> parse_array_loop 2 [Token LEFT_SQUARE (StringV ''[''), Token NUMBER (IntV 1),
       Token EOF_TOKEN Monostate] [] (Token NUMBER (IntV 1)) 2 = (Inl MissingComma, 2)
   \<and> parse_object_loop 1 [Token LEFT_CURLY (StringV ''{''), Token EOF_TOKEN Monostate]
     [] (Token EOF_TOKEN Monostate) 2 = (Inl UnterminatedObject, 2)
   \<and> parse_object_loop 1 [Token LEFT_CURLY (StringV ''{''), Token STRING (StringV ''a''),
       Token EOF_TOKEN Monostate] [] (Token STRING (StringV ''a'')) 2 = (Inl ExpectedColon, 2)
   \<and> parse_object_loop 2 [Token LEFT_CURLY (StringV ''{''), Token STRING (StringV ''a''),
       Token COLON (StringV '':''), Token EOF_TOKEN Monostate]
       [] (Token STRING (StringV ''a'')) 2 = (Inl UnexpectedToken, 4)
   \<and> parse_object_loop 2 [Token LEFT_CURLY (StringV ''{''), Token STRING (StringV ''a''),
       Token COLON (StringV '':''), Token NUMBER (IntV 1), Token EOF_TOKEN Monostate]
       [] (Token STRING (StringV ''a'')) 2 = (Inl MissingComma, 4)"
proof -
  let ?e = "Token EOF_TOKEN Monostate"
  let ?k = "Token STRING (StringV ''a'')"
  let ?one = "Token NUMBER (IntV 1)"
  let ?a1 = "[Token LEFT_SQUARE (StringV ''[''), ?e]"
  let ?a2 = "[Token LEFT_SQUARE (StringV ''[''), ?one, ?e]"
  let ?o1 = "[Token LEFT_CURLY (StringV ''{''), ?e]"
  let ?o2 = "[Token LEFT_CURLY (StringV ''{''), ?k, ?e]"
  let ?o3 = "[Token LEFT_CURLY (StringV ''{''), ?k, Token COLON (StringV '':''), ?e]"
  let ?o4 = "[Token LEFT_CURLY (StringV ''{''), ?k, Token COLON (StringV '':''), ?one, ?e]"
  have v: "parse_from_token (Suc 0) ?a2 ?one 2 = (Inr (JInt 1), 2)"
    by (simp add: parser_eval)
  have w: "parse_from_token (Suc 0) ?o4 (?o4 ! Suc 2) (Suc (Suc 2)) = (Inr (JInt 1), 4)"
    by (simp add: parser_eval)
  from eof_inside_array_or_object [of ?e 0 ?a1 "[]" 2]
  have 1: "parse_array_loop 1 ?a1 [] ?e 2 = (Inl UnterminatedArray, 2)" by simp
  from eof_inside_array_or_object [of ?one "Suc 0" ?a2 "[]" 2 "JInt 1" 2] v
  have 2: "parse_array_loop 2 ?a2 [] ?one 2 = (Inl MissingComma, 2)"
    by (simp add: eval_nat_numeral)
  from eof_inside_array_or_object [of _ 0 ?o1 _ 2 _ _ ?e "[]"]
  have 3: "parse_object_loop 1 ?o1 [] ?e 2 = (Inl UnterminatedObject, 2)" by simp
  from eof_inside_array_or_object [of _ 0 ?o2 _ 2 _ _ ?k "[]"]
  have 4: "parse_object_loop 1 ?o2 [] ?k 2 = (Inl ExpectedColon, 2)" by simp
  from eof_inside_array_or_object [of _ 0 ?o3 _ 2 _ _ ?k "[]"]
  have 5: "parse_object_loop 2 ?o3 [] ?k 2 = (Inl UnexpectedToken, 4)"
    by (simp add: eval_nat_numeral)
  from eof_inside_array_or_object [of _ "Suc 0" ?o4 _ 2 _ _ ?k "[]" "''a''" "JInt 1" 4] w
  have 6: "parse_object_loop 2 ?o4 [] ?k 2 = (Inl MissingComma, 4)"
    by (simp add: eval_nat_numeral)
  from 1 2 3 4 5 6 show ?thesis by simp
qed

theorem eof_after_element_counterexample:
  "parse ''[1'' = Inl MissingComma \<and> parse ''{\"a\":1'' = Inl MissingComma"
  by (simp add: eof_examples)

end
